theory Spec2Isabelle
  imports Main "HOL-Library.Word"
begin

unbundle bit_operations_syntax

section \<open>Data model (buffer.h)\<close>

text \<open>
  \<open>size_t\<close> is a 64-bit unsigned integer (LP64), \<open>unsigned char\<close> an 8-bit one, and
  \<open>int\<close> is 32 bits wide.  A pointer to bytes is modelled by the bytes that can be
  reached from it, indexed by their distance from the pointer; a pointer that may be
  \<open>NULL\<close> is an \<open>option\<close>.
\<close>

type_synonym size_t = "64 word"
type_synonym byte = "8 word"
type_synonym memory = "nat \<Rightarrow> byte"

definition CBUFFER_DEFAULT_CAPACITY :: size_t where
  "CBUFFER_DEFAULT_CAPACITY = 0x40"

definition CBUFFER_GROWTH_FACTOR :: size_t where
  "CBUFFER_GROWTH_FACTOR = 0x2"

record CBuffer =
  byte_length :: size_t
  capacity :: size_t
  data :: memory

text \<open>The bytes in use: the first \<open>byte_length\<close> bytes of \<open>data\<close>.\<close>

definition contents :: "CBuffer \<Rightarrow> byte list" where
  "contents b = map (data b) [0..<unat (byte_length b)]"

subsection \<open>The C library\<close>

text \<open>
  \<open>malloc\<close> and \<open>realloc\<close> may fail, and the memory they hand out is not initialised.
  Both facts are parameters of the model: \<open>can_alloc n\<close> tells whether a request for
  \<open>n\<close> bytes succeeds, \<open>fresh\<close> is what uninitialised memory happens to hold.
\<close>

record allocator =
  can_alloc :: "size_t \<Rightarrow> bool"
  fresh :: memory

definition sizeof_CBuffer :: size_t where
  "sizeof_CBuffer = 24"

text \<open>
  No object is larger than \<open>PTRDIFF_MAX\<close> bytes, so a C library refuses a request for
  more.  An allocator of which that is known is called bounded.
\<close>

definition PTRDIFF_MAX :: size_t where
  "PTRDIFF_MAX = 0x7FFFFFFFFFFFFFFF"

definition bounded_allocator :: "allocator \<Rightarrow> bool" where
  "bounded_allocator al \<longleftrightarrow> (\<forall>n. can_alloc al n \<longrightarrow> n \<le> PTRDIFF_MAX)"

text \<open>\<open>memcpy(dst + off, src, n)\<close>, as the new contents of \<open>dst\<close>.\<close>

definition memcpy :: "memory \<Rightarrow> nat \<Rightarrow> memory \<Rightarrow> nat \<Rightarrow> memory" where
  "memcpy dst off src n = (\<lambda>i. if off \<le> i \<and> i < off + n then src (i - off) else dst i)"

text \<open>
  A successful \<open>realloc(p, n)\<close> keeps the bytes of the old block (of \<open>old\<close> bytes) up to
  the smaller of the two sizes; the rest of the new block is not initialised.
\<close>

definition realloc :: "allocator \<Rightarrow> memory \<Rightarrow> size_t \<Rightarrow> size_t \<Rightarrow> memory" where
  "realloc al p old n = (\<lambda>i. if i < min (unat old) (unat n) then p i else fresh al i)"

section \<open>Buffer store (buffer.c)\<close>

definition cbuffer_alloc :: "allocator \<Rightarrow> size_t \<Rightarrow> CBuffer option" where
  "cbuffer_alloc al cap =
     (if \<not> can_alloc al sizeof_CBuffer then None
      else let c = (if cap > 0 then cap else CBUFFER_DEFAULT_CAPACITY) in
        if \<not> can_alloc al c then None
        else Some \<lparr>byte_length = 0, capacity = c, data = fresh al\<rparr>)"

definition cbuffer_from :: "allocator \<Rightarrow> memory option \<Rightarrow> size_t \<Rightarrow> CBuffer option" where
  "cbuffer_from al source src_len =
     (case source of
        None \<Rightarrow> cbuffer_alloc al CBUFFER_DEFAULT_CAPACITY
      | Some src \<Rightarrow>
          if src_len = 0 then cbuffer_alloc al CBUFFER_DEFAULT_CAPACITY
          else if \<not> can_alloc al sizeof_CBuffer then None
          else if \<not> can_alloc al src_len then None
          else Some \<lparr>byte_length = src_len, capacity = src_len,
                     data = memcpy (fresh al) 0 src (unat src_len)\<rparr>)"

text \<open>
  The body of the \<open>while\<close> loop of \<open>cbuffer_ensure_capacity\<close>: \<open>cap\<close> is
  \<open>buffer->capacity\<close>, which the loop does not change, \<open>n\<close> is \<open>new_capacity\<close>.
\<close>

definition grow_step :: "size_t \<Rightarrow> size_t \<Rightarrow> size_t \<Rightarrow> size_t" where
  "grow_step cap sz n =
     (let n' = n * CBUFFER_GROWTH_FACTOR in if n' < cap then sz else n')"

text \<open>The loop itself.  It need not terminate: \<open>None\<close> is a loop that runs forever.\<close>

partial_function (option) grow_loop :: "size_t \<Rightarrow> size_t \<Rightarrow> size_t \<Rightarrow> size_t option" where
  "grow_loop cap sz n = (if n < sz then grow_loop cap sz (grow_step cap sz n) else Some n)"

text \<open>
  The functions that change a buffer through a pointer return their \<open>int\<close> result
  together with the buffer as it is after the call; \<open>None\<close> as the whole result is a
  call that does not return.
\<close>

definition cbuffer_ensure_capacity ::
  "allocator \<Rightarrow> CBuffer option \<Rightarrow> size_t \<Rightarrow> (int \<times> CBuffer option) option" where
  "cbuffer_ensure_capacity al buffer sz =
     (case buffer of
        None \<Rightarrow> Some (- 1, None)
      | Some b \<Rightarrow>
          if capacity b \<ge> sz then Some (0, Some b)
          else (case grow_loop (capacity b) sz (capacity b) of
                  None \<Rightarrow> None
                | Some new_capacity \<Rightarrow>
                    if \<not> can_alloc al new_capacity then Some (- 1, Some b)
                    else Some (0, Some (b\<lparr>data := realloc al (data b) (capacity b) new_capacity,
                                           capacity := new_capacity\<rparr>))))"

text \<open>The conversion \<open>(int) src_len\<close> keeps the low 32 bits, read as two's complement.\<close>

definition int_of_size_t :: "size_t \<Rightarrow> int" where
  "int_of_size_t n = sint (ucast n :: 32 word)"

definition INT_MAX :: int where
  "INT_MAX = 2147483647"

text \<open>
  The block that \<open>data\<close> points to has \<open>capacity\<close> bytes.  A \<open>memcpy\<close> that writes past
  its end is a heap overflow: what the memory holds afterwards is not defined, so the
  call yields no buffer.  The function does not notice and goes on to store the new
  length and to return; the fault records the length it stores and the value it returns.
\<close>

datatype fault = BufferOverrun size_t int

text \<open>
  In \<open>cbuffer_write\<close> the buffer is not \<open>NULL\<close> when \<open>cbuffer_ensure_capacity\<close> has
  returned 0, so the \<open>None\<close> case for \<open>buffer'\<close> below is never reached.  The copy of
  \<open>src_len\<close> bytes to \<open>data + byte_length\<close> stays inside the block when
  \<open>byte_length + src_len\<close>, taken in the natural numbers, is at most the capacity.
\<close>

definition cbuffer_write ::
  "allocator \<Rightarrow> CBuffer option \<Rightarrow> memory option \<Rightarrow> size_t
     \<Rightarrow> (fault + int \<times> CBuffer option) option" where
  "cbuffer_write al buffer source src_len =
     (case buffer of
        None \<Rightarrow> Some (Inr (0, buffer))
      | Some b \<Rightarrow>
         (case source of
            None \<Rightarrow> Some (Inr (0, buffer))
          | Some src \<Rightarrow>
              if src_len = 0 then Some (Inr (0, buffer))
              else let tr_size = byte_length b + src_len in
                (case cbuffer_ensure_capacity al buffer tr_size of
                   None \<Rightarrow> None
                 | Some (rc, buffer') \<Rightarrow>
                     if rc \<noteq> 0 then Some (Inr (- 1, buffer'))
                     else (case buffer' of
                             None \<Rightarrow> Some (Inr (- 1, buffer'))
                           | Some b' \<Rightarrow>
                               if unat (byte_length b') + unat src_len \<le> unat (capacity b')
                               then Some (Inr (int_of_size_t src_len,
                                     Some (b'\<lparr>data := memcpy (data b') (unat (byte_length b'))
                                                          src (unat src_len),
                                             byte_length := tr_size\<rparr>)))
                               else Some (Inl (BufferOverrun tr_size
                                                 (int_of_size_t src_len)))))))"

definition cbuffer_clone :: "allocator \<Rightarrow> CBuffer option \<Rightarrow> CBuffer option" where
  "cbuffer_clone al buffer =
     (case buffer of
        None \<Rightarrow> None
      | Some b \<Rightarrow> cbuffer_from al (Some (data b)) (byte_length b))"

text \<open>\<open>buffer->data + start\<close>: the bytes reachable from the advanced pointer.\<close>

definition ptr_add :: "memory \<Rightarrow> nat \<Rightarrow> memory" where
  "ptr_add p k = (\<lambda>i. p (k + i))"

definition cbuffer_subarray :: "allocator \<Rightarrow> CBuffer option \<Rightarrow> size_t \<Rightarrow> size_t \<Rightarrow> CBuffer option" where
  "cbuffer_subarray al buffer start end0 =
     (case buffer of
        None \<Rightarrow> None
      | Some b \<Rightarrow>
          let e = (if end0 = 0 \<or> end0 > byte_length b then byte_length b else end0) in
          if start \<ge> byte_length b \<or> start \<ge> e then cbuffer_alloc al 0
          else let slice_len = e - start in
            cbuffer_from al (Some (ptr_add (data b) (unat start))) slice_len)"

text \<open>The invariant of the data model: the bytes in use fit into the allocated block.\<close>

definition cbuffer_inv :: "CBuffer \<Rightarrow> bool" where
  "cbuffer_inv b \<longleftrightarrow> byte_length b \<le> capacity b"

text \<open>
  Modelled from the spec: \<open>cbuffer_equals\<close> is declared in buffer.h and defined nowhere
  in the sources; it is true iff the lengths are equal and every byte matches.
\<close>

definition cbuffer_equals :: "CBuffer \<Rightarrow> CBuffer \<Rightarrow> bool" where
  "cbuffer_equals a b \<longleftrightarrow> byte_length a = byte_length b \<and> contents a = contents b"

section \<open>Scalar codec (buffer.c)\<close>

definition CBUFFER_BOUNDS_CHECK :: "CBuffer option \<Rightarrow> size_t \<Rightarrow> size_t \<Rightarrow> int" where
  "CBUFFER_BOUNDS_CHECK buffer offset sz =
     (case buffer of
        None \<Rightarrow> - 1
      | Some b \<Rightarrow> if offset \<le> byte_length b \<and> byte_length b - offset \<ge> sz then 0 else - 1)"

text \<open>
  In \<open>swap_endian_16\<close> the operand is promoted to \<open>int\<close> before it is shifted, and the
  result is converted back to 16 bits.
\<close>

definition swap_endian_16 :: "16 word \<Rightarrow> 16 word" where
  "swap_endian_16 v =
     ucast (push_bit 8 (ucast v :: 32 word) OR drop_bit 8 (ucast v :: 32 word))"

definition swap_endian_32 :: "32 word \<Rightarrow> 32 word" where
  "swap_endian_32 v =
     push_bit 24 v OR push_bit 8 (v AND 0x0000FF00) OR drop_bit 8 (v AND 0x00FF0000)
       OR drop_bit 24 v"

function swap_endian_64_loop :: "64 word \<Rightarrow> nat \<Rightarrow> 64 word \<Rightarrow> 64 word" where
  "swap_endian_64_loop v bit_no result =
     (if bit_no < 8
      then swap_endian_64_loop v (bit_no + 1)
             (result OR push_bit ((7 - bit_no) * 8) (drop_bit (bit_no * 8) v AND 0xFF))
      else result)"
  by pat_completeness auto
termination
  by (relation "measure (\<lambda>(v, bit_no, result). 8 - bit_no)") auto

definition swap_endian_64 :: "64 word \<Rightarrow> 64 word" where
  "swap_endian_64 v = swap_endian_64_loop v 0 0"

text \<open>
  \<open>memcpy\<close> between a scalar and bytes, on a little-endian machine: \<open>bytes_of v\<close> are the
  bytes of the object \<open>v\<close>, \<open>word_of m n\<close> is the scalar whose first \<open>n\<close> bytes are those
  of \<open>m\<close>.
\<close>

definition bytes_of :: "'a::len word \<Rightarrow> memory" where
  "bytes_of v = (\<lambda>i. ucast (drop_bit (8 * i) v))"

fun word_of :: "memory \<Rightarrow> nat \<Rightarrow> 'a::len word" where
  "word_of m 0 = 0"
| "word_of m (Suc n) = word_of m n OR push_bit (8 * n) (ucast (m n))"

text \<open>
  The bodies of the accessors, the macros \<open>CBUFFER_READ_VALUE(T, size, swap_func)\<close> and
  \<open>CBUFFER_WRITE_VALUE(T, size, swap_func)\<close>: \<open>T\<close> is the word type, \<open>buffer\<close>, \<open>offset\<close>
  and \<open>value\<close> are the parameters of the function that the macro is the body of.  After
  a bounds check that succeeded the buffer is not \<open>NULL\<close>.

  The write macro does not call \<open>memcpy\<close> but \<open>mempcy\<close>, a function that no header
  declares and no source file defines.  What it does is therefore a parameter of the
  model: \<open>mempcy dst off src n\<close> is what the call \<open>mempcy(dst + off, src, n)\<close> leaves in
  \<open>dst\<close>.
\<close>

type_synonym copy_function = "memory \<Rightarrow> nat \<Rightarrow> memory \<Rightarrow> nat \<Rightarrow> memory"

definition CBUFFER_READ_VALUE ::
  "nat \<Rightarrow> ('a::len word \<Rightarrow> 'a word) \<Rightarrow> CBuffer option \<Rightarrow> size_t \<Rightarrow> 'a word" where
  "CBUFFER_READ_VALUE sz swap_func buffer offset =
     (if CBUFFER_BOUNDS_CHECK buffer offset (of_nat sz) \<noteq> 0 then 0
      else (case buffer of
              None \<Rightarrow> 0
            | Some b \<Rightarrow> swap_func (word_of (ptr_add (data b) (unat offset)) sz)))"

definition CBUFFER_WRITE_VALUE ::
  "copy_function \<Rightarrow> nat \<Rightarrow> ('a::len word \<Rightarrow> 'a word) \<Rightarrow> CBuffer option \<Rightarrow> size_t
     \<Rightarrow> 'a word \<Rightarrow> int \<times> CBuffer option" where
  "CBUFFER_WRITE_VALUE mempcy sz swap_func buffer offset v =
     (if CBUFFER_BOUNDS_CHECK buffer offset (of_nat sz) \<noteq> 0 then (0, buffer)
      else (case buffer of
              None \<Rightarrow> (0, buffer)
            | Some b \<Rightarrow>
                let value_le = swap_func v in
                (0, Some (b\<lparr>data := mempcy (data b) (unat offset) (bytes_of value_le) sz\<rparr>))))"

datatype endianness = LittleEndian | BigEndian

text \<open>
  Modelled from the spec: the accessors \<open>readUintN\<close> and \<open>writeUintN\<close> for N = 16, 32, 64.
  buffer.c holds their bodies, the two macros above, and the three byte swaps, but no
  function that puts them together.  By the spec they copy N/8 bytes in the storage
  order (little-endian, the \<open>value_le\<close> of the write macro) and reverse the bytes when
  the requested order differs from it.  The write accessors pass on the \<open>mempcy\<close> of the
  macro.
\<close>

definition swap_for :: "('a \<Rightarrow> 'a) \<Rightarrow> endianness \<Rightarrow> 'a \<Rightarrow> 'a" where
  "swap_for swap e = (case e of LittleEndian \<Rightarrow> (\<lambda>v. v) | BigEndian \<Rightarrow> swap)"

definition readUint16 :: "CBuffer option \<Rightarrow> size_t \<Rightarrow> endianness \<Rightarrow> 16 word" where
  "readUint16 buffer offset e = CBUFFER_READ_VALUE 2 (swap_for swap_endian_16 e) buffer offset"

definition readUint32 :: "CBuffer option \<Rightarrow> size_t \<Rightarrow> endianness \<Rightarrow> 32 word" where
  "readUint32 buffer offset e = CBUFFER_READ_VALUE 4 (swap_for swap_endian_32 e) buffer offset"

definition readUint64 :: "CBuffer option \<Rightarrow> size_t \<Rightarrow> endianness \<Rightarrow> 64 word" where
  "readUint64 buffer offset e = CBUFFER_READ_VALUE 8 (swap_for swap_endian_64 e) buffer offset"

definition writeUint16 ::
  "copy_function \<Rightarrow> CBuffer option \<Rightarrow> size_t \<Rightarrow> 16 word \<Rightarrow> endianness
     \<Rightarrow> int \<times> CBuffer option" where
  "writeUint16 mempcy buffer offset v e =
     CBUFFER_WRITE_VALUE mempcy 2 (swap_for swap_endian_16 e) buffer offset v"

definition writeUint32 ::
  "copy_function \<Rightarrow> CBuffer option \<Rightarrow> size_t \<Rightarrow> 32 word \<Rightarrow> endianness
     \<Rightarrow> int \<times> CBuffer option" where
  "writeUint32 mempcy buffer offset v e =
     CBUFFER_WRITE_VALUE mempcy 4 (swap_for swap_endian_32 e) buffer offset v"

definition writeUint64 ::
  "copy_function \<Rightarrow> CBuffer option \<Rightarrow> size_t \<Rightarrow> 64 word \<Rightarrow> endianness
     \<Rightarrow> int \<times> CBuffer option" where
  "writeUint64 mempcy buffer offset v e =
     CBUFFER_WRITE_VALUE mempcy 8 (swap_for swap_endian_64 e) buffer offset v"

text \<open>
  The value of a byte sequence read as a number, most significant byte first; read the
  other way round it is \<open>be_value\<close> of the reversed sequence.
\<close>

definition be_value :: "byte list \<Rightarrow> 'a::len word" where
  "be_value bs = foldl (\<lambda>acc x. acc * 256 + ucast x) 0 bs"

text \<open>The \<open>n\<close> bytes of a buffer that start at \<open>offset\<close>.\<close>

definition bytes_at :: "CBuffer \<Rightarrow> size_t \<Rightarrow> nat \<Rightarrow> byte list" where
  "bytes_at b offset n = map (data b) [unat offset..<unat offset + n]"

section \<open>Cipher mode registry (ciphers/aead.c)\<close>

text \<open>
  The pointer \<open>allowed_key_sizes\<close> and the count that goes with it are the list of the
  array's elements and its length; \<open>unsigned short\<close> is 16 bits wide.
\<close>

record AEADMode =
  basename :: string
  agid :: "16 word"
  iv_length :: "16 word"
  tag_length :: "16 word"
  allowed_key_sizes :: "byte list"
  allowed_key_sizes_count :: size_t

definition AES_GCM :: "16 word" where "AES_GCM = 0x15"
definition AES_CCM :: "16 word" where "AES_CCM = 0x1C"
definition CHACHA20_POLY1305 :: "16 word" where "CHACHA20_POLY1305 = 0xC5"

definition AES_KEY_SIZES :: "byte list" where
  "AES_KEY_SIZES = [0x10, 0x18, 0x20]"

definition AES_KEY_SIZES_COUNT :: size_t where
  "AES_KEY_SIZES_COUNT = of_nat (length AES_KEY_SIZES)"

definition CHACHA20_KEY_SIZES :: "byte list" where
  "CHACHA20_KEY_SIZES = [0x20]"

definition CHACHA20_KEY_SIZES_COUNT :: size_t where
  "CHACHA20_KEY_SIZES_COUNT = of_nat (length CHACHA20_KEY_SIZES)"

definition AEAD_AES_GCM_MODE :: AEADMode where
  "AEAD_AES_GCM_MODE = \<lparr>basename = ''aes-gcm'', agid = AES_GCM, iv_length = 0xC,
     tag_length = 0x10, allowed_key_sizes = AES_KEY_SIZES,
     allowed_key_sizes_count = AES_KEY_SIZES_COUNT\<rparr>"

definition AEAD_AES_CCM_MODE :: AEADMode where
  "AEAD_AES_CCM_MODE = \<lparr>basename = ''aes-ccm'', agid = AES_CCM, iv_length = 0xD,
     tag_length = 0x10, allowed_key_sizes = AES_KEY_SIZES,
     allowed_key_sizes_count = AES_KEY_SIZES_COUNT\<rparr>"

definition AEAD_CHACHA20_MODE :: AEADMode where
  "AEAD_CHACHA20_MODE = \<lparr>basename = ''chacha20-poly1305'', agid = CHACHA20_POLY1305,
     iv_length = 0xC, tag_length = 0x10, allowed_key_sizes = CHACHA20_KEY_SIZES,
     allowed_key_sizes_count = CHACHA20_KEY_SIZES_COUNT\<rparr>"

text \<open>\<open>strcmp(a, b) == 0\<close> is equality of the two strings.\<close>

definition aead_aes :: "string option \<Rightarrow> AEADMode option" where
  "aead_aes mode =
     (case mode of
        None \<Rightarrow> None
      | Some m \<Rightarrow>
          if m = ''ccm'' \<or> m = ''CCM'' then Some AEAD_AES_CCM_MODE
          else if m = ''gcm'' \<or> m = ''GCM'' then Some AEAD_AES_GCM_MODE
          else None)"

definition aead_chacha20 :: AEADMode where
  "aead_chacha20 = AEAD_CHACHA20_MODE"

text \<open>
  Two strings are case variants of each other when they agree after every ASCII capital
  letter is replaced by its small letter.
\<close>

definition ascii_lower :: "char \<Rightarrow> char" where
  "ascii_lower c =
     (if 65 \<le> (of_char c :: nat) \<and> (of_char c :: nat) \<le> 90
      then char_of ((of_char c :: nat) + 32) else c)"

definition case_variant :: "string \<Rightarrow> string \<Rightarrow> bool" where
  "case_variant s t \<longleftrightarrow> map ascii_lower s = map ascii_lower t"

section \<open>Inputs for the concrete checks\<close>

definition zero_memory :: memory where
  "zero_memory = (\<lambda>i. 0)"

text \<open>Memory that holds the bytes of a list, and 0 after them.\<close>

definition memory_of :: "byte list \<Rightarrow> memory" where
  "memory_of bs = (\<lambda>i. if i < length bs then bs ! i else 0)"

text \<open>An allocator that grants every request.\<close>

definition generous :: allocator where
  "generous = \<lparr>can_alloc = (\<lambda>n. True), fresh = zero_memory\<rparr>"

text \<open>An allocator that grants every request of at most \<open>PTRDIFF_MAX\<close> bytes.\<close>

definition modest :: allocator where
  "modest = \<lparr>can_alloc = (\<lambda>n. n \<le> PTRDIFF_MAX), fresh = zero_memory\<rparr>"

definition buf11 :: CBuffer where
  "buf11 = \<lparr>byte_length = 0, capacity = 11, data = zero_memory\<rparr>"

definition buf64 :: CBuffer where
  "buf64 = \<lparr>byte_length = 0, capacity = 64, data = zero_memory\<rparr>"

definition buf2 :: CBuffer where
  "buf2 = \<lparr>byte_length = 2, capacity = 64, data = zero_memory\<rparr>"

definition buf3 :: CBuffer where
  "buf3 = \<lparr>byte_length = 3, capacity = 64, data = memory_of [1, 2, 3]\<rparr>"


definition buf8 :: CBuffer where
  "buf8 = \<lparr>byte_length = 8, capacity = 64,
            data = memory_of [0x01, 0x23, 0x45, 0x67, 0x89, 0xAB, 0xCD, 0xEF]\<rparr>"

text \<open>The result code and the length of the buffer after a call, when it returns.\<close>

definition result_code :: "(fault + int \<times> CBuffer option) option \<Rightarrow> int option" where
  "result_code r = (case r of Some (Inr (rc, buffer)) \<Rightarrow> Some rc | _ \<Rightarrow> None)"

definition result_length :: "(fault + int \<times> CBuffer option) option \<Rightarrow> size_t option" where
  "result_length r =
     (case r of Some (Inr (rc, Some b)) \<Rightarrow> Some (byte_length b) | _ \<Rightarrow> None)"

section \<open>The growth loop\<close>

lemma pow64: "(2::64 word) ^ 64 = 0"
  by simp

lemma grow_step_double:
  "grow_step cap sz n = (if n * 2 < cap then sz else n * 2)"
  by (simp add: grow_step_def CBUFFER_GROWTH_FACTOR_def Let_def)

text \<open>The loop returns the first iterate of its body that is not below \<open>sz\<close>.\<close>

lemma grow_loop_funpow:
  "(\<forall>j<k. (grow_step cap sz ^^ j) n < sz) \<Longrightarrow> \<not> (grow_step cap sz ^^ k) n < sz
   \<Longrightarrow> grow_loop cap sz n = Some ((grow_step cap sz ^^ k) n)"
proof (induction k arbitrary: n)
  case 0
  then show ?case by (simp add: grow_loop.simps)
next
  case (Suc k)
  from Suc.prems(1) have lt: "n < sz" by (metis funpow_0 zero_less_Suc)
  have a: "\<forall>j<k. (grow_step cap sz ^^ j) (grow_step cap sz n) < sz"
  proof (intro allI impI)
    fix j assume "j < k"
    then have "(grow_step cap sz ^^ Suc j) n < sz" using Suc.prems(1) by (meson Suc_less_eq)
    then show "(grow_step cap sz ^^ j) (grow_step cap sz n) < sz" by (simp add: funpow_swap1)
  qed
  have b: "\<not> (grow_step cap sz ^^ k) (grow_step cap sz n) < sz"
    using Suc.prems(2) by (simp add: funpow_swap1)
  have "grow_loop cap sz n = grow_loop cap sz (grow_step cap sz n)"
    using lt by (subst grow_loop.simps) simp
  also have "\<dots> = Some ((grow_step cap sz ^^ k) (grow_step cap sz n))"
    by (rule Suc.IH [OF a b])
  finally show ?case by (simp add: funpow_swap1)
qed

text \<open>With a capacity of 0 the loop never ends: doubling 0 gives 0, which is not below 0.\<close>

lemma grow_loop_result_ge:
  assumes "grow_loop cap sz n = Some y"
  shows "sz \<le> y"
  by (rule grow_loop.raw_induct [OF _ assms]) (auto split: if_splits)

lemma grow_loop_capacity_zero:
  assumes "0 < sz"
  shows "grow_loop 0 sz 0 = None"
proof (cases "grow_loop 0 sz 0")
  case None
  then show ?thesis .
next
  case (Some y)
  have "\<not> (0 = (0::size_t) \<and> (0::size_t) = 0 \<and> 0 < sz)"
    by (rule grow_loop.raw_induct
        [OF _ Some, where P = "\<lambda>cap sz n y. \<not> (cap = 0 \<and> n = 0 \<and> 0 < sz)"])
      (auto simp: grow_step_double split: if_splits)
  with assms show ?thesis by simp
qed

text \<open>
  After \<open>j\<close> rounds the loop has either stopped already, or \<open>new_capacity\<close> is the
  capacity doubled \<open>j\<close> times modulo \<open>2 ^ 64\<close>; the 65th doubling of anything is 0, which
  is below a capacity that is not 0.
\<close>

lemma grow_doubling_or_done:
  assumes "cap \<noteq> 0"
  shows "j \<le> 65 \<Longrightarrow> (\<exists>i\<le>j. \<not> (grow_step cap sz ^^ i) cap < sz)
          \<or> (j \<le> 64 \<and> (grow_step cap sz ^^ j) cap = cap * 2 ^ j)"
proof (induction j)
  case 0
  then show ?case by simp
next
  case (Suc j)
  then have "(\<exists>i\<le>j. \<not> (grow_step cap sz ^^ i) cap < sz)
          \<or> (j \<le> 64 \<and> (grow_step cap sz ^^ j) cap = cap * 2 ^ j)" by simp
  then show ?case
  proof
    assume "\<exists>i\<le>j. \<not> (grow_step cap sz ^^ i) cap < sz"
    then show ?thesis using le_Suc_eq by blast
  next
    assume h: "j \<le> 64 \<and> (grow_step cap sz ^^ j) cap = cap * 2 ^ j"
    show ?thesis
    proof (cases "cap * 2 ^ Suc j < cap")
      case True
      then have "grow_step cap sz (cap * 2 ^ j) = sz"
        by (simp add: grow_step_double mult_ac)
      then have "(grow_step cap sz ^^ Suc j) cap = sz"
        using h by simp
      then have "\<not> (grow_step cap sz ^^ Suc j) cap < sz" by simp
      then show ?thesis by blast
    next
      case False
      have "j \<noteq> 64"
      proof
        assume j64: "j = 64"
        have "(2::64 word) ^ Suc j = 2 * 2 ^ 64" unfolding j64 by (rule power_Suc)
        also have "\<dots> = 0" by (simp only: pow64 mult_zero_right)
        finally have "cap * 2 ^ Suc j = 0" by (simp only: mult_zero_right)
        with False assms show False by (simp add: word_neq_0_conv)
      qed
      moreover from False have "grow_step cap sz (cap * 2 ^ j) = cap * 2 ^ Suc j"
        by (simp add: grow_step_double mult_ac)
      then have "(grow_step cap sz ^^ Suc j) cap = cap * 2 ^ Suc j"
        using h by simp
      ultimately show ?thesis using h by simp
    qed
  qed
qed

text \<open>
  C9.  When \<open>buffer->capacity\<close> is at least 1 the doubling loop of
  \<open>cbuffer_ensure_capacity\<close> terminates after at most 65 rounds, whatever size is
  requested.  The value it ends with is not below the requested size, and it is either
  the capacity doubled modulo \<open>2 ^ 64\<close> or the requested size itself, to which the loop
  snaps when a doubling falls below the original capacity.
\<close>

theorem grow_loop_terminates:
  assumes "cap \<noteq> 0"
  shows "\<exists>k\<le>65. grow_loop cap sz cap = Some ((grow_step cap sz ^^ k) cap)
           \<and> (\<forall>j<k. (grow_step cap sz ^^ j) cap < sz)
           \<and> sz \<le> (grow_step cap sz ^^ k) cap
           \<and> ((grow_step cap sz ^^ k) cap = cap * 2 ^ k \<or> (grow_step cap sz ^^ k) cap = sz)"
proof -
  let ?f = "grow_step cap sz"
  let ?P = "\<lambda>i. \<not> (?f ^^ i) cap < sz"
  from grow_doubling_or_done [OF assms, of 65 sz]
  obtain i where i: "i \<le> 65" "?P i" by auto
  define k where "k = (LEAST i. ?P i)"
  have Pk: "?P k" unfolding k_def using i(2) by (rule LeastI)
  have kle: "k \<le> i" unfolding k_def using i(2) by (rule Least_le)
  have below: "\<forall>j<k. (?f ^^ j) cap < sz"
    unfolding k_def using not_less_Least by blast
  have res: "grow_loop cap sz cap = Some ((?f ^^ k) cap)"
    by (rule grow_loop_funpow [OF below Pk])
  have shape: "(?f ^^ k) cap = cap * 2 ^ k \<or> (?f ^^ k) cap = sz"
  proof (cases k)
    case 0
    then show ?thesis by simp
  next
    case (Suc m)
    then have m: "m < k" "m \<le> 65" using kle i(1) by simp_all
    from grow_doubling_or_done [OF assms m(2), of sz] below m(1)
    have "(?f ^^ m) cap = cap * 2 ^ m" by (meson le_less_trans)
    then have "(?f ^^ k) cap = ?f (cap * 2 ^ m)" using Suc by simp
    then show ?thesis using Suc by (simp add: grow_step_double mult_ac)
  qed
  from Pk have "sz \<le> (?f ^^ k) cap" by simp
  with res below shape kle i(1) show ?thesis by (meson le_trans)
qed

theorem grow_loop_terminates_witness:
  "\<exists>k. k \<le> 65 \<and> grow_loop 64 100 64 = Some ((grow_step 64 100 ^^ k) 64)
        \<and> (100 :: size_t) \<le> (grow_step 64 100 ^^ k) 64"
proof -
  have "(64 :: size_t) \<noteq> 0" by simp
  from grow_loop_terminates [OF this, of 100] show ?thesis by blast
qed

lemma unat_double:
  "unat (n :: size_t) * 2 < 2 ^ 64 \<Longrightarrow> unat (n * 2) = unat n * 2"
  by (simp add: unat_word_ariths)

lemma grow_step_no_overflow:
  "unat cap * 2 ^ k < 2 ^ 64 \<Longrightarrow>
     (grow_step cap sz ^^ k) cap = cap * 2 ^ k \<and> unat (cap * 2 ^ k) = unat cap * 2 ^ k"
proof (induction k)
  case 0
  then show ?case by simp
next
  case (Suc k)
  have le: "unat cap * 2 ^ k \<le> unat cap * 2 ^ Suc k" by simp
  from le Suc.prems have "unat cap * 2 ^ k < 2 ^ 64" by (rule le_less_trans)
  with Suc.IH have ih: "(grow_step cap sz ^^ k) cap = cap * 2 ^ k"
    "unat (cap * 2 ^ k) = unat cap * 2 ^ k" by simp_all
  have "unat (cap * 2 ^ k) * 2 < 2 ^ 64" using Suc.prems ih(2) by (simp add: mult_ac)
  then have u: "unat (cap * 2 ^ k * 2) = unat cap * 2 ^ Suc k"
    using ih(2) by (simp add: unat_double)
  have "unat cap \<le> unat cap * 2 ^ Suc k" by simp
  then have "\<not> cap * 2 ^ k * 2 < cap" using u by (simp add: word_less_nat_alt)
  then have "grow_step cap sz (cap * 2 ^ k) = cap * 2 ^ k * 2"
    by (simp add: grow_step_double)
  then have "(grow_step cap sz ^^ Suc k) cap = cap * 2 ^ k * 2"
    using ih(1) by simp
  with u show ?case by (simp add: mult_ac)
qed

lemma grow_loop_no_overflow:
  assumes "unat cap * 2 ^ k < 2 ^ 64" and "unat sz \<le> unat cap * 2 ^ k"
    and "\<forall>j<k. unat cap * 2 ^ j < unat sz"
  shows "grow_loop cap sz cap = Some (cap * 2 ^ k) \<and> unat (cap * 2 ^ k) = unat cap * 2 ^ k"
proof -
  have small: "unat cap * 2 ^ j < 2 ^ 64" if "j \<le> k" for j
  proof -
    have "unat cap * 2 ^ j \<le> unat cap * 2 ^ k" using that by simp
    then show ?thesis using assms(1) by (rule le_less_trans)
  qed
  have below: "\<forall>j<k. (grow_step cap sz ^^ j) cap < sz"
  proof (intro allI impI)
    fix j assume j: "j < k"
    then have "unat cap * 2 ^ j < 2 ^ 64" using small by simp
    from grow_step_no_overflow [OF this, of sz] assms(3) j
    show "(grow_step cap sz ^^ j) cap < sz" by (simp add: word_less_nat_alt)
  qed
  from grow_step_no_overflow [OF assms(1), of sz]
  have k: "(grow_step cap sz ^^ k) cap = cap * 2 ^ k" "unat (cap * 2 ^ k) = unat cap * 2 ^ k"
    by simp_all
  then have "\<not> (grow_step cap sz ^^ k) cap < sz" using assms(2) by (simp add: word_less_nat_alt)
  from grow_loop_funpow [OF below this] k show ?thesis by simp
qed

lemma grow_step_not_snapped:
  "\<forall>j\<le>k. \<not> cap * 2 ^ j < cap \<Longrightarrow> (grow_step cap sz ^^ k) cap = cap * 2 ^ k"
proof (induction k)
  case 0
  then show ?case by simp
next
  case (Suc k)
  then have ih: "(grow_step cap sz ^^ k) cap = cap * 2 ^ k" by simp
  have "\<not> cap * 2 ^ Suc k < cap" using Suc.prems by blast
  then have "grow_step cap sz (cap * 2 ^ k) = cap * 2 ^ Suc k"
    by (simp add: grow_step_double mult_ac)
  then show ?case using ih by simp
qed

lemma grow_loop_snap:
  assumes "\<forall>j\<le>k. cap * 2 ^ j < sz \<and> \<not> cap * 2 ^ j < cap" and "cap * 2 ^ Suc k < cap"
  shows "grow_loop cap sz cap = Some sz"
proof -
  have eq: "(grow_step cap sz ^^ j) cap = cap * 2 ^ j" if "j \<le> k" for j
    by (rule grow_step_not_snapped) (use assms(1) that in auto)
  have "grow_step cap sz (cap * 2 ^ k) = sz"
    using assms(2) by (simp add: grow_step_double mult_ac)
  then have "(grow_step cap sz ^^ Suc k) cap = sz"
    using eq [of k] by simp
  moreover have "\<forall>j<Suc k. (grow_step cap sz ^^ j) cap < sz"
    using eq assms(1) by (simp add: less_Suc_eq_le)
  ultimately show ?thesis
    using grow_loop_funpow [of "Suc k" cap sz cap] by simp
qed

lemma grow_loop_returns:
  assumes "cap \<noteq> 0"
  obtains nc where "grow_loop cap sz cap = Some nc" and "sz \<le> nc"
proof -
  have "\<exists>nc. grow_loop cap sz cap = Some nc \<and> sz \<le> nc"
  proof -
    from grow_doubling_or_done [OF assms, of 65 sz]
    obtain i where "\<not> (grow_step cap sz ^^ i) cap < sz" by auto
    then have P: "\<not> (grow_step cap sz ^^ (LEAST i. \<not> (grow_step cap sz ^^ i) cap < sz)) cap < sz"
      by (rule LeastI)
    have "\<forall>j<(LEAST i. \<not> (grow_step cap sz ^^ i) cap < sz). (grow_step cap sz ^^ j) cap < sz"
      using not_less_Least by blast
    from grow_loop_funpow [OF this P] P show ?thesis by simp
  qed
  then show thesis using that by blast
qed

lemma realloc_keeps:
  "old \<le> n \<Longrightarrow> i < unat old \<Longrightarrow> realloc al p old n i = p i"
  by (simp add: realloc_def word_le_nat_alt)

lemma contents_realloc:
  assumes "byte_length b \<le> capacity b" and "capacity b \<le> n"
  shows "contents (b\<lparr>data := realloc al (data b) (capacity b) n, capacity := n\<rparr>) = contents b"
proof -
  have "realloc al (data b) (capacity b) n i = data b i" if "i < unat (byte_length b)" for i
  proof -
    from that assms(1) have "i < unat (capacity b)" by (simp add: word_le_nat_alt)
    with assms(2) show ?thesis by (rule realloc_keeps)
  qed
  then show ?thesis by (simp add: contents_def)
qed

text \<open>
  With a capacity of at least 1 the loop returns the first iterate of its body that is
  not below the requested size.
\<close>

lemma grow_loop_least:
  assumes "cap \<noteq> 0"
  obtains k where "grow_loop cap sz cap = Some ((grow_step cap sz ^^ k) cap)"
    and "\<forall>j<k. (grow_step cap sz ^^ j) cap < sz" and "sz \<le> (grow_step cap sz ^^ k) cap"
proof -
  let ?P = "\<lambda>i. \<not> (grow_step cap sz ^^ i) cap < sz"
  from grow_doubling_or_done [OF assms, of 65 sz]
  obtain i where "?P i" by auto
  then have P: "?P (LEAST i. ?P i)" by (rule LeastI)
  have below: "\<forall>j<(LEAST i. ?P i). (grow_step cap sz ^^ j) cap < sz"
    using not_less_Least by blast
  from grow_loop_funpow [OF below P] below P that show thesis by simp
qed

text \<open>
  As long as the requested size is at most \<open>2 ^ 63\<close>, no doubling of a value below it
  overflows, so the iterates of the loop body are the capacity times a power of two.
\<close>

lemma grow_step_pure:
  assumes "unat sz \<le> 2 ^ 63"
  shows "\<forall>j<k. (grow_step cap sz ^^ j) cap < sz \<Longrightarrow>
     (grow_step cap sz ^^ k) cap = cap * 2 ^ k \<and> unat (cap * 2 ^ k) = unat cap * 2 ^ k"
proof (induction k)
  case 0
  then show ?case by simp
next
  case (Suc k)
  then have ih: "(grow_step cap sz ^^ k) cap = cap * 2 ^ k"
    "unat (cap * 2 ^ k) = unat cap * 2 ^ k" by simp_all
  have "(grow_step cap sz ^^ k) cap < sz" using Suc.prems by simp
  then have "unat (cap * 2 ^ k) < unat sz" unfolding ih(1) by (simp add: word_less_nat_alt)
  with assms have "unat (cap * 2 ^ k) < 2 ^ 63" by linarith
  then have "unat (cap * 2 ^ k) * 2 < 2 ^ 64" by simp
  then have u: "unat (cap * 2 ^ k * 2) = unat cap * 2 ^ Suc k"
    using ih(2) by (simp add: unat_double)
  have "unat cap \<le> unat cap * 2 ^ Suc k" by simp
  then have "\<not> cap * 2 ^ k * 2 < cap" using u by (simp add: word_less_nat_alt)
  then have "grow_step cap sz (cap * 2 ^ k) = cap * 2 ^ k * 2"
    by (simp add: grow_step_double)
  then have "(grow_step cap sz ^^ Suc k) cap = cap * 2 ^ k * 2"
    using ih(1) by simp
  with u show ?case by (simp add: mult_ac)
qed

lemma ptrdiff_bound: "n \<le> PTRDIFF_MAX \<longleftrightarrow> unat n < 2 ^ 63"
proof -
  have "n \<le> PTRDIFF_MAX \<longleftrightarrow> unat n \<le> 9223372036854775807"
    by (simp add: PTRDIFF_MAX_def word_le_nat_alt)
  also have "\<dots> \<longleftrightarrow> unat n < 9223372036854775808" by linarith
  finally show ?thesis by simp
qed

text \<open>What a bounded allocator grants is the capacity doubled, without overflow.\<close>

lemma grow_loop_granted:
  assumes cap: "cap \<noteq> 0" and al: "bounded_allocator al"
    and nc: "grow_loop cap sz cap = Some nc" and ok: "can_alloc al nc"
  shows "\<exists>k. nc = cap * 2 ^ k \<and> unat nc = unat cap * 2 ^ k
           \<and> (\<forall>j<k. unat cap * 2 ^ j < unat sz) \<and> unat sz \<le> unat cap * 2 ^ k"
proof -
  from grow_loop_least [OF cap, of sz]
  obtain k where k: "grow_loop cap sz cap = Some ((grow_step cap sz ^^ k) cap)"
    "\<forall>j<k. (grow_step cap sz ^^ j) cap < sz" "sz \<le> (grow_step cap sz ^^ k) cap" by blast
  from k(1) nc have eq: "nc = (grow_step cap sz ^^ k) cap" by simp
  have "nc \<le> PTRDIFF_MAX" using al ok by (simp add: bounded_allocator_def)
  then have "unat nc < 2 ^ 63" by (simp add: ptrdiff_bound)
  moreover have "unat sz \<le> unat nc" using k(3) eq by (simp add: word_le_nat_alt)
  ultimately have sz: "unat sz \<le> 2 ^ 63" by linarith
  from grow_step_pure [OF sz k(2)] eq
  have pure: "nc = cap * 2 ^ k" "unat nc = unat cap * 2 ^ k" by simp_all
  have "unat cap * 2 ^ j < unat sz" if "j < k" for j
  proof -
    have "\<forall>i<j. (grow_step cap sz ^^ i) cap < sz" using k(2) that by simp
    from grow_step_pure [OF sz this]
    have "(grow_step cap sz ^^ j) cap = cap * 2 ^ j" "unat (cap * 2 ^ j) = unat cap * 2 ^ j"
      by simp_all
    moreover have "(grow_step cap sz ^^ j) cap < sz" using k(2) that by simp
    ultimately show ?thesis by (simp add: word_less_nat_alt)
  qed
  with pure \<open>unat sz \<le> unat nc\<close> show ?thesis by auto
qed

text \<open>A request for more than \<open>PTRDIFF_MAX\<close> bytes is refused.\<close>

lemma ensure_capacity_refused:
  assumes cap: "capacity b \<noteq> 0" and al: "bounded_allocator al"
    and big: "2 ^ 63 \<le> unat sz" and lt: "capacity b < sz"
  shows "cbuffer_ensure_capacity al (Some b) sz = Some (- 1, Some b)"
proof -
  from grow_loop_returns [OF cap, of sz]
  obtain nc where nc: "grow_loop (capacity b) sz (capacity b) = Some nc" "sz \<le> nc" by blast
  have "unat sz \<le> unat nc" using nc(2) by (simp add: word_le_nat_alt)
  with big have "\<not> unat nc < 2 ^ 63" by linarith
  then have "\<not> nc \<le> PTRDIFF_MAX" by (simp add: ptrdiff_bound)
  then have "\<not> can_alloc al nc" using al by (auto simp: bounded_allocator_def)
  with nc(1) lt show ?thesis by (simp add: cbuffer_ensure_capacity_def)
qed

text \<open>A doubling that falls below the capacity has overflowed: the size is beyond \<open>2 ^ 63\<close>.\<close>

lemma wrap_needs_big_size:
  fixes cap sz :: size_t
  assumes "\<forall>j\<le>k. cap * 2 ^ j < sz \<and> \<not> cap * 2 ^ j < cap" and "cap * 2 ^ Suc k < cap"
  shows "2 ^ 63 \<le> unat sz"
proof (rule ccontr)
  assume "\<not> 2 ^ 63 \<le> unat sz"
  then have sz: "unat sz \<le> 2 ^ 63" by simp
  have "(grow_step cap sz ^^ j) cap = cap * 2 ^ j" if "j \<le> k" for j
    by (rule grow_step_not_snapped) (use assms(1) that in auto)
  then have "\<forall>j<Suc k. (grow_step cap sz ^^ j) cap < sz"
    using assms(1) by (simp add: less_Suc_eq_le)
  from grow_step_pure [OF sz this]
  have "unat (cap * 2 ^ Suc k) = unat cap * 2 ^ Suc k" by simp
  moreover have "unat cap \<le> unat cap * 2 ^ Suc k" by simp
  ultimately have "\<not> cap * 2 ^ Suc k < cap" by (simp add: word_less_nat_alt)
  with assms(2) show False by simp
qed

text \<open>
  C2.  For a buffer with a capacity of at least 1 whose length is at most its capacity,
  and an allocator that grants no block of more than \<open>PTRDIFF_MAX\<close> bytes:
  \<open>cbuffer_ensure_capacity\<close> does nothing when the capacity is at least the requested
  size, and it returns in every case.  When it has
  grown the buffer, the length and the bytes in use are as before and the new capacity
  is the old one times \<open>2 ^ k\<close> for the least \<open>k\<close> with which that reaches the size, no
  doubling having overflowed; and it does grow the buffer to that capacity whenever the
  allocator grants it.  When a doubling wraps below the capacity, the loop snaps its
  target to the requested size; that size is then beyond \<open>PTRDIFF_MAX\<close>, the block is
  refused and the buffer is left exactly as it was, as it is whenever a doubling
  overflows before the size is reached.
\<close>

theorem cbuffer_ensure_capacity_grows:
  assumes cap: "capacity b \<noteq> 0" and inv: "cbuffer_inv b" and al: "bounded_allocator al"
  shows "(sz \<le> capacity b \<longrightarrow> cbuffer_ensure_capacity al (Some b) sz = Some (0, Some b))
    \<and> (\<exists>rc b'. cbuffer_ensure_capacity al (Some b) sz = Some (rc, Some b'))
    \<and> (\<forall>b'. capacity b < sz \<and> cbuffer_ensure_capacity al (Some b) sz = Some (0, Some b') \<longrightarrow>
          byte_length b' = byte_length b \<and> contents b' = contents b \<and> sz \<le> capacity b'
          \<and> (\<exists>k. capacity b' = capacity b * 2 ^ k
                \<and> unat (capacity b') = unat (capacity b) * 2 ^ k
                \<and> (\<forall>j<k. unat (capacity b) * 2 ^ j < unat sz)))
    \<and> (\<forall>k. capacity b < sz \<and> unat (capacity b) * 2 ^ k < 2 ^ 64
            \<and> unat sz \<le> unat (capacity b) * 2 ^ k
            \<and> (\<forall>j<k. unat (capacity b) * 2 ^ j < unat sz)
            \<and> can_alloc al (capacity b * 2 ^ k) \<longrightarrow>
          (\<exists>b'. cbuffer_ensure_capacity al (Some b) sz = Some (0, Some b')
             \<and> capacity b' = capacity b * 2 ^ k))
    \<and> (\<forall>k. (\<forall>j\<le>k. capacity b * 2 ^ j < sz \<and> \<not> capacity b * 2 ^ j < capacity b)
            \<and> capacity b * 2 ^ Suc k < capacity b \<longrightarrow>
          grow_loop (capacity b) sz (capacity b) = Some sz
          \<and> cbuffer_ensure_capacity al (Some b) sz = Some (- 1, Some b))
    \<and> (\<forall>j. unat (capacity b) * 2 ^ j < unat sz \<and> 2 ^ 64 \<le> unat (capacity b) * 2 ^ Suc j \<longrightarrow>
          cbuffer_ensure_capacity al (Some b) sz = Some (- 1, Some b))"
proof -
  from grow_loop_returns [OF cap, of sz]
  obtain nc where nc: "grow_loop (capacity b) sz (capacity b) = Some nc" "sz \<le> nc" by blast
  have noop: "sz \<le> capacity b \<longrightarrow> cbuffer_ensure_capacity al (Some b) sz = Some (0, Some b)"
    by (simp add: cbuffer_ensure_capacity_def)
  have ret: "\<exists>rc b'. cbuffer_ensure_capacity al (Some b) sz = Some (rc, Some b')"
    using nc(1) by (simp add: cbuffer_ensure_capacity_def)
  have grown: "byte_length b' = byte_length b \<and> contents b' = contents b \<and> sz \<le> capacity b'
          \<and> (\<exists>k. capacity b' = capacity b * 2 ^ k
                \<and> unat (capacity b') = unat (capacity b) * 2 ^ k
                \<and> (\<forall>j<k. unat (capacity b) * 2 ^ j < unat sz))"
    if lt: "capacity b < sz" and res: "cbuffer_ensure_capacity al (Some b) sz = Some (0, Some b')"
    for b'
  proof -
    from lt res nc(1)
    have ok: "can_alloc al nc"
      and b': "b' = b\<lparr>data := realloc al (data b) (capacity b) nc, capacity := nc\<rparr>"
      by (auto simp: cbuffer_ensure_capacity_def split: if_splits)
    have capnc: "capacity b \<le> nc" using lt nc(2) by simp
    have c: "contents b' = contents b"
      unfolding b' using inv capnc by (intro contents_realloc) (simp_all add: cbuffer_inv_def)
    from grow_loop_granted [OF cap al nc(1) ok]
    obtain k where "nc = capacity b * 2 ^ k" "unat nc = unat (capacity b) * 2 ^ k"
      "\<forall>j<k. unat (capacity b) * 2 ^ j < unat sz" by blast
    with c nc(2) show ?thesis by (auto simp: b')
  qed
  have doubled: "\<exists>b'. cbuffer_ensure_capacity al (Some b) sz = Some (0, Some b')
             \<and> capacity b' = capacity b * 2 ^ k"
    if lt: "capacity b < sz" and fits: "unat (capacity b) * 2 ^ k < 2 ^ 64"
      and reach: "unat sz \<le> unat (capacity b) * 2 ^ k"
      and least: "\<forall>j<k. unat (capacity b) * 2 ^ j < unat sz"
      and ok: "can_alloc al (capacity b * 2 ^ k)" for k
  proof -
    from grow_loop_no_overflow [OF fits reach least]
    have "grow_loop (capacity b) sz (capacity b) = Some (capacity b * 2 ^ k)" by simp
    moreover have "\<not> sz \<le> capacity b" using lt by simp
    ultimately show ?thesis using ok by (simp add: cbuffer_ensure_capacity_def)
  qed
  have snapped: "grow_loop (capacity b) sz (capacity b) = Some sz
          \<and> cbuffer_ensure_capacity al (Some b) sz = Some (- 1, Some b)"
    if w: "(\<forall>j\<le>k. capacity b * 2 ^ j < sz \<and> \<not> capacity b * 2 ^ j < capacity b)
            \<and> capacity b * 2 ^ Suc k < capacity b" for k
  proof -
    from w have a: "\<forall>j\<le>k. capacity b * 2 ^ j < sz \<and> \<not> capacity b * 2 ^ j < capacity b"
      and c: "capacity b * 2 ^ Suc k < capacity b" by simp_all
    have g: "grow_loop (capacity b) sz (capacity b) = Some sz" using a c by (rule grow_loop_snap)
    have big: "2 ^ 63 \<le> unat sz" using a c by (rule wrap_needs_big_size)
    have "capacity b * 2 ^ 0 < sz" using a by blast
    then have lt: "capacity b < sz" by simp
    from ensure_capacity_refused [OF cap al big lt] g show ?thesis by simp
  qed
  have overflow: "cbuffer_ensure_capacity al (Some b) sz = Some (- 1, Some b)"
    if o: "unat (capacity b) * 2 ^ j < unat sz \<and> 2 ^ 64 \<le> unat (capacity b) * 2 ^ Suc j" for j
  proof -
    from o have "2 ^ 63 \<le> unat (capacity b) * 2 ^ j" by simp
    with o have big: "2 ^ 63 \<le> unat sz" by linarith
    have "unat (capacity b) \<le> unat (capacity b) * 2 ^ j" by simp
    with o have "unat (capacity b) < unat sz" by linarith
    then have lt: "capacity b < sz" by (simp add: word_less_nat_alt)
    from ensure_capacity_refused [OF cap al big lt] show ?thesis .
  qed
  have g: "\<forall>b'. capacity b < sz \<and> cbuffer_ensure_capacity al (Some b) sz = Some (0, Some b') \<longrightarrow>
          byte_length b' = byte_length b \<and> contents b' = contents b \<and> sz \<le> capacity b'
          \<and> (\<exists>k. capacity b' = capacity b * 2 ^ k
                \<and> unat (capacity b') = unat (capacity b) * 2 ^ k
                \<and> (\<forall>j<k. unat (capacity b) * 2 ^ j < unat sz))"
    using grown by blast
  have d: "\<forall>k. capacity b < sz \<and> unat (capacity b) * 2 ^ k < 2 ^ 64
            \<and> unat sz \<le> unat (capacity b) * 2 ^ k
            \<and> (\<forall>j<k. unat (capacity b) * 2 ^ j < unat sz)
            \<and> can_alloc al (capacity b * 2 ^ k) \<longrightarrow>
          (\<exists>b'. cbuffer_ensure_capacity al (Some b) sz = Some (0, Some b')
             \<and> capacity b' = capacity b * 2 ^ k)"
    using doubled by blast
  have s: "\<forall>k. (\<forall>j\<le>k. capacity b * 2 ^ j < sz \<and> \<not> capacity b * 2 ^ j < capacity b)
            \<and> capacity b * 2 ^ Suc k < capacity b \<longrightarrow>
          grow_loop (capacity b) sz (capacity b) = Some sz
          \<and> cbuffer_ensure_capacity al (Some b) sz = Some (- 1, Some b)"
    using snapped by blast
  have o: "\<forall>j. unat (capacity b) * 2 ^ j < unat sz \<and> 2 ^ 64 \<le> unat (capacity b) * 2 ^ Suc j \<longrightarrow>
          cbuffer_ensure_capacity al (Some b) sz = Some (- 1, Some b)"
    using overflow by blast
  from noop ret g d s o show ?thesis by (intro conjI)
qed

lemma modest_bounded: "bounded_allocator modest"
  by (simp add: bounded_allocator_def modest_def)

theorem cbuffer_ensure_capacity_grows_witness:
  "(\<exists>b'. cbuffer_ensure_capacity modest (Some buf64) 100 = Some (0, Some b')
        \<and> capacity b' = 128 \<and> byte_length b' = 0)
   \<and> cbuffer_ensure_capacity modest (Some buf11) 0xB000000000000001 = Some (- 1, Some buf11)"
proof -
  have h: "capacity buf64 \<noteq> 0" "cbuffer_inv buf64"
    by (simp_all add: buf64_def cbuffer_inv_def)
  have p: "capacity buf64 < 100 \<and> unat (capacity buf64) * 2 ^ 1 < 2 ^ 64
      \<and> unat (100 :: size_t) \<le> unat (capacity buf64) * 2 ^ 1
      \<and> (\<forall>j<1. unat (capacity buf64) * 2 ^ j < unat (100 :: size_t))
      \<and> can_alloc modest (capacity buf64 * 2 ^ 1)"
    by (simp add: buf64_def modest_def PTRDIFF_MAX_def)
  note t = cbuffer_ensure_capacity_grows [OF h modest_bounded, of 100]
  from t have "\<forall>k. capacity buf64 < 100 \<and> unat (capacity buf64) * 2 ^ k < 2 ^ 64
            \<and> unat (100 :: size_t) \<le> unat (capacity buf64) * 2 ^ k
            \<and> (\<forall>j<k. unat (capacity buf64) * 2 ^ j < unat (100 :: size_t))
            \<and> can_alloc modest (capacity buf64 * 2 ^ k) \<longrightarrow>
          (\<exists>b'. cbuffer_ensure_capacity modest (Some buf64) 100 = Some (0, Some b')
             \<and> capacity b' = capacity buf64 * 2 ^ k)"
    by (elim conjE)
  then have "capacity buf64 < 100 \<and> unat (capacity buf64) * 2 ^ 1 < 2 ^ 64
            \<and> unat (100 :: size_t) \<le> unat (capacity buf64) * 2 ^ 1
            \<and> (\<forall>j<1. unat (capacity buf64) * 2 ^ j < unat (100 :: size_t))
            \<and> can_alloc modest (capacity buf64 * 2 ^ 1) \<longrightarrow>
          (\<exists>b'. cbuffer_ensure_capacity modest (Some buf64) 100 = Some (0, Some b')
             \<and> capacity b' = capacity buf64 * 2 ^ 1)"
    by (rule spec)
  with p have "\<exists>b'. cbuffer_ensure_capacity modest (Some buf64) 100 = Some (0, Some b')
             \<and> capacity b' = capacity buf64 * 2 ^ 1" by (rule rev_mp)
  then obtain b' where b': "cbuffer_ensure_capacity modest (Some buf64) 100 = Some (0, Some b')"
    "capacity b' = capacity buf64 * 2 ^ 1" by blast
  from t have "\<forall>b'. capacity buf64 < 100
        \<and> cbuffer_ensure_capacity modest (Some buf64) 100 = Some (0, Some b') \<longrightarrow>
          byte_length b' = byte_length buf64 \<and> contents b' = contents buf64 \<and> 100 \<le> capacity b'
          \<and> (\<exists>k. capacity b' = capacity buf64 * 2 ^ k
                \<and> unat (capacity b') = unat (capacity buf64) * 2 ^ k
                \<and> (\<forall>j<k. unat (capacity buf64) * 2 ^ j < unat (100 :: size_t)))"
    by (elim conjE)
  then have "capacity buf64 < 100
        \<and> cbuffer_ensure_capacity modest (Some buf64) 100 = Some (0, Some b') \<longrightarrow>
          byte_length b' = byte_length buf64 \<and> contents b' = contents buf64 \<and> 100 \<le> capacity b'
          \<and> (\<exists>k. capacity b' = capacity buf64 * 2 ^ k
                \<and> unat (capacity b') = unat (capacity buf64) * 2 ^ k
                \<and> (\<forall>j<k. unat (capacity buf64) * 2 ^ j < unat (100 :: size_t)))"
    by (rule spec)
  moreover have "capacity buf64 < 100" using p by (rule conjunct1)
  ultimately have "byte_length b' = byte_length buf64" using b'(1) by simp
  with b' have first: "\<exists>b'. cbuffer_ensure_capacity modest (Some buf64) 100 = Some (0, Some b')
        \<and> capacity b' = 128 \<and> byte_length b' = 0"
    by (intro exI [of _ b']) (simp add: buf64_def)
  have h11: "capacity buf11 \<noteq> 0" "cbuffer_inv buf11"
    by (simp_all add: buf11_def cbuffer_inv_def)
  have q: "unat (capacity buf11) * 2 ^ 60 < unat (0xB000000000000001 :: size_t)
      \<and> 2 ^ 64 \<le> unat (capacity buf11) * 2 ^ Suc 60"
    by (simp add: buf11_def)
  from cbuffer_ensure_capacity_grows [OF h11 modest_bounded, of "0xB000000000000001"]
  have "\<forall>j. unat (capacity buf11) * 2 ^ j < unat (0xB000000000000001 :: size_t)
        \<and> 2 ^ 64 \<le> unat (capacity buf11) * 2 ^ Suc j \<longrightarrow>
          cbuffer_ensure_capacity modest (Some buf11) 0xB000000000000001 = Some (- 1, Some buf11)"
    by (elim conjE)
  then have "unat (capacity buf11) * 2 ^ 60 < unat (0xB000000000000001 :: size_t)
        \<and> 2 ^ 64 \<le> unat (capacity buf11) * 2 ^ Suc 60 \<longrightarrow>
          cbuffer_ensure_capacity modest (Some buf11) 0xB000000000000001 = Some (- 1, Some buf11)"
    by (rule spec)
  with q have "cbuffer_ensure_capacity modest (Some buf11) 0xB000000000000001
      = Some (- 1, Some buf11)" by (rule rev_mp)
  with first show ?thesis by (rule conjI)
qed

text \<open>
  The guard of the loop compares the doubled value with \<open>buffer->capacity\<close>, not with
  the value before the doubling, so it does not see every overflow.  From capacity 11
  the loop reaches \<open>11 * 2 ^ 60\<close>, whose doubling overflows \<open>size_t\<close> to
  \<open>0x6000000000000000\<close>; that is not below 11, and the loop goes on to
  \<open>0xC000000000000000\<close> instead of the requested size.  No growth can be seen to succeed
  that way: such a request is for more than \<open>PTRDIFF_MAX\<close> bytes.
\<close>

lemma grow_loop_guard_miss:
  "grow_loop 11 0xB000000000000001 11 = Some 0xC000000000000000"
  by (simp add: grow_loop.simps grow_step_double)

section \<open>Writing\<close>

text \<open>What a call of \<open>cbuffer_ensure_capacity\<close> that returns has done.\<close>

lemma ensure_capacity_cases:
  assumes "cbuffer_ensure_capacity al (Some b) sz = Some (rc, buffer')"
  obtains (noop) "sz \<le> capacity b" "rc = 0" "buffer' = Some b"
  | (failed) nc where "capacity b < sz" "grow_loop (capacity b) sz (capacity b) = Some nc"
      "\<not> can_alloc al nc" "rc = - 1" "buffer' = Some b"
  | (grown) nc where "capacity b < sz" "grow_loop (capacity b) sz (capacity b) = Some nc"
      "sz \<le> nc" "can_alloc al nc" "rc = 0"
      "buffer' = Some (b\<lparr>data := realloc al (data b) (capacity b) nc, capacity := nc\<rparr>)"
proof (cases "sz \<le> capacity b")
  case True
  with assms noop show ?thesis by (simp add: cbuffer_ensure_capacity_def)
next
  case False
  then have lt: "capacity b < sz" by simp
  from assms False obtain nc where nc: "grow_loop (capacity b) sz (capacity b) = Some nc"
    by (auto simp: cbuffer_ensure_capacity_def split: option.splits)
  have ge: "sz \<le> nc" using nc by (rule grow_loop_result_ge)
  show ?thesis
  proof (cases "can_alloc al nc")
    case True
    with assms False nc lt ge grown show ?thesis by (simp add: cbuffer_ensure_capacity_def)
  next
    case False
    with assms \<open>\<not> sz \<le> capacity b\<close> nc lt failed show ?thesis
      by (simp add: cbuffer_ensure_capacity_def)
  qed
qed

lemma ensure_capacity_returns:
  assumes "capacity b \<noteq> 0"
  shows "\<exists>rc b'. cbuffer_ensure_capacity al (Some b) sz = Some (rc, Some b')"
proof -
  from grow_loop_returns [OF assms, of sz]
  obtain nc where "grow_loop (capacity b) sz (capacity b) = Some nc" by blast
  then show ?thesis by (simp add: cbuffer_ensure_capacity_def)
qed

lemma ensure_capacity_inv:
  assumes "cbuffer_ensure_capacity al (Some b) sz = Some (rc, buffer')" and "cbuffer_inv b"
  shows "\<exists>b'. buffer' = Some b' \<and> cbuffer_inv b' \<and> byte_length b' = byte_length b
           \<and> capacity b \<le> capacity b' \<and> (rc = 0 \<or> rc = - 1)
           \<and> (rc = 0 \<longrightarrow> sz \<le> capacity b' \<and> contents b' = contents b)
           \<and> (rc \<noteq> 0 \<longrightarrow> b' = b)"
  using assms(1)
proof (cases rule: ensure_capacity_cases)
  case noop
  then show ?thesis using assms(2) by simp
next
  case (failed nc)
  then show ?thesis using assms(2) by simp
next
  case (grown nc)
  have le: "capacity b \<le> nc" using grown(1,3) by simp
  have "byte_length b \<le> nc" using assms(2) le by (simp add: cbuffer_inv_def)
  moreover have "contents (b\<lparr>data := realloc al (data b) (capacity b) nc, capacity := nc\<rparr>)
      = contents b"
    using assms(2) le by (intro contents_realloc) (simp_all add: cbuffer_inv_def)
  ultimately show ?thesis using grown le by (simp add: cbuffer_inv_def)
qed

lemma map_memcpy_upt:
  "map (memcpy d off src n) [0..<off + n] = map d [0..<off] @ map src [0..<n]"
proof -
  have "[0..<off + n] = [0..<off] @ [off..<off + n]"
    by (rule upt_add_eq_append) simp
  moreover have "[off..<off + n] = map (\<lambda>i. i + off) [0..<n]"
    using map_add_upt [of off n] by (simp only: add.commute [of n off])
  ultimately have split: "[0..<off + n] = [0..<off] @ map (\<lambda>i. i + off) [0..<n]"
    by (simp only:)
  have a: "map (memcpy d off src n) [0..<off] = map d [0..<off]"
    by (simp add: memcpy_def)
  have b: "map (memcpy d off src n) (map (\<lambda>i. i + off) [0..<n]) = map src [0..<n]"
    by (simp add: memcpy_def comp_def)
  show ?thesis unfolding split map_append a b ..
qed

lemma unat_sum_no_wrap:
  "unat (a :: size_t) + unat (n :: size_t) < 2 ^ 64 \<Longrightarrow> unat (a + n) = unat a + unat n"
  by (simp add: unat_word_ariths)


lemma uint_lt_of_unat:
  "unat (n :: size_t) < 2 ^ 31 \<Longrightarrow> uint n < 2 ^ 31"
proof -
  assume "unat n < 2 ^ 31"
  then have "int (unat n) < int (2 ^ 31)" by (simp only: of_nat_less_iff)
  then show ?thesis by (simp only: uint_nat [symmetric] of_nat_power of_nat_numeral)
qed

lemma uint_ucast_small:
  "uint (n :: size_t) < 2 ^ 31 \<Longrightarrow> uint (ucast n :: 32 word) = uint n"
proof -
  assume lt: "uint n < 2 ^ 31"
  have "uint (ucast n :: 32 word) = take_bit LENGTH(32) (uint n)" by (rule unsigned_ucast_eq)
  also have "\<dots> = uint n"
  proof (rule take_bit_int_eq_self)
    show "0 \<le> uint n" by simp
    show "uint n < 2 ^ LENGTH(32)" using lt by simp
  qed
  finally show ?thesis .
qed

lemma sint_small: "uint (w :: 32 word) < 2 ^ 31 \<Longrightarrow> sint w = uint w"
proof -
  assume lt: "uint w < 2 ^ 31"
  have "sint w = signed_take_bit (LENGTH(32) - Suc 0) (uint w)" by (rule sint_uint)
  also have "\<dots> = uint w"
  proof (rule signed_take_bit_int_eq_self)
    have "(0::int) \<le> uint w" by simp
    moreover have "- (2 ^ (LENGTH(32) - Suc 0)) \<le> (0::int)" by simp
    ultimately show "- (2 ^ (LENGTH(32) - Suc 0)) \<le> uint w" by (rule order_trans [rotated])
    show "uint w < 2 ^ (LENGTH(32) - Suc 0)" using lt by simp
  qed
  finally show ?thesis .
qed

lemma int_of_size_t_small:
  assumes "unat n < 2 ^ 31"
  shows "int_of_size_t n = int (unat n)"
proof -
  have lt: "uint n < 2 ^ 31" using assms by (rule uint_lt_of_unat)
  have u: "uint (ucast n :: 32 word) = uint n" using lt by (rule uint_ucast_small)
  then have "uint (ucast n :: 32 word) < 2 ^ 31" using lt by simp
  then have "sint (ucast n :: 32 word) = uint (ucast n :: 32 word)" by (rule sint_small)
  also note u
  finally show ?thesis unfolding int_of_size_t_def by (simp only: uint_nat)
qed


lemma cbuffer_write_unfold:
  assumes "n \<noteq> 0" and "cbuffer_ensure_capacity al (Some b) (byte_length b + n) = Some (rc, Some b1)"
  shows "cbuffer_write al (Some b) (Some src) n =
     (if rc \<noteq> 0 then Some (Inr (- 1, Some b1))
      else if unat (byte_length b1) + unat n \<le> unat (capacity b1)
      then Some (Inr (int_of_size_t n,
             Some (b1\<lparr>data := memcpy (data b1) (unat (byte_length b1)) src (unat n),
                      byte_length := byte_length b + n\<rparr>)))
      else Some (Inl (BufferOverrun (byte_length b + n) (int_of_size_t n))))"
  using assms by (simp add: cbuffer_write_def Let_def)

lemma cbuffer_write_noop:
  "cbuffer_write al buffer None n = Some (Inr (0, buffer))"
  "cbuffer_write al buffer source 0 = Some (Inr (0, buffer))"
  "cbuffer_write al None source n = Some (Inr (0, None))"
  by (simp_all add: cbuffer_write_def split: option.splits)

text \<open>
  After a successful \<open>cbuffer_ensure_capacity\<close> the copy stays inside the block exactly
  when the sum of length and \<open>src_len\<close> has not wrapped.
\<close>

lemma copy_in_block:
  assumes "byte_length b + n \<le> capacity b1"
  shows "unat (byte_length b) + unat n < 2 ^ 64 \<Longrightarrow>
      unat (byte_length b) + unat n \<le> unat (capacity b1)"
    and "2 ^ 64 \<le> unat (byte_length b) + unat n \<Longrightarrow>
      \<not> unat (byte_length b) + unat n \<le> unat (capacity b1)"
proof -
  assume "unat (byte_length b) + unat n < 2 ^ 64"
  then have "unat (byte_length b + n) = unat (byte_length b) + unat n" by (rule unat_sum_no_wrap)
  with assms show "unat (byte_length b) + unat n \<le> unat (capacity b1)"
    by (simp add: word_le_nat_alt)
next
  assume "2 ^ 64 \<le> unat (byte_length b) + unat n"
  moreover have "unat (capacity b1) < 2 ^ 64" using unsigned_less [of "capacity b1"] by simp
  ultimately show "\<not> unat (byte_length b) + unat n \<le> unat (capacity b1)" by linarith
qed

lemma cbuffer_alloc_inv:
  assumes "cbuffer_alloc al c = Some b"
  shows "cbuffer_inv b \<and> capacity b \<noteq> 0 \<and> byte_length b = 0"
proof -
  have "(if 0 < c then c else CBUFFER_DEFAULT_CAPACITY) \<noteq> 0"
    by (simp add: CBUFFER_DEFAULT_CAPACITY_def word_neq_0_conv)
  with assms show ?thesis
    by (auto simp: cbuffer_alloc_def cbuffer_inv_def Let_def split: if_splits)
qed

lemma cbuffer_from_inv:
  assumes "cbuffer_from al source n = Some b"
  shows "cbuffer_inv b \<and> capacity b \<noteq> 0"
proof (cases "source = None \<or> n = 0")
  case True
  with assms have "cbuffer_alloc al CBUFFER_DEFAULT_CAPACITY = Some b"
    by (auto simp: cbuffer_from_def split: option.splits)
  then show ?thesis using cbuffer_alloc_inv by blast
next
  case False
  with assms show ?thesis
    by (auto simp: cbuffer_from_def cbuffer_inv_def split: option.splits if_splits)
qed

lemma cbuffer_clone_inv:
  assumes "cbuffer_clone al buffer = Some b"
  shows "cbuffer_inv b \<and> capacity b \<noteq> 0"
proof (cases buffer)
  case None
  with assms show ?thesis by (simp add: cbuffer_clone_def)
next
  case (Some a)
  with assms have "cbuffer_from al (Some (data a)) (byte_length a) = Some b"
    by (simp add: cbuffer_clone_def)
  then show ?thesis by (rule cbuffer_from_inv)
qed

lemma cbuffer_subarray_inv:
  assumes "cbuffer_subarray al buffer start end0 = Some b"
  shows "cbuffer_inv b \<and> capacity b \<noteq> 0"
proof (cases buffer)
  case None
  with assms show ?thesis by (simp add: cbuffer_subarray_def)
next
  case (Some a)
  with assms have "cbuffer_alloc al 0 = Some b
    \<or> (\<exists>p k. cbuffer_from al (Some p) k = Some b)"
    by (auto simp: cbuffer_subarray_def Let_def split: if_splits)
  then show ?thesis using cbuffer_alloc_inv cbuffer_from_inv by blast
qed

lemma cbuffer_write_inv:
  assumes "cbuffer_inv b" and "cbuffer_write al (Some b) source n = Some (Inr (rc, r))"
  shows "\<exists>b'. r = Some b' \<and> cbuffer_inv b' \<and> capacity b \<le> capacity b'
     \<and> ((\<exists>r1. cbuffer_ensure_capacity al (Some b) (byte_length b + n) = Some (- 1, r1))
          \<longrightarrow> b' = b)"
proof (cases "source = None \<or> n = 0")
  case True
  then have "cbuffer_write al (Some b) source n = Some (Inr (0, Some b))"
    using cbuffer_write_noop by auto
  with assms(2) have "r = Some b" by simp
  then show ?thesis using assms(1) by simp
next
  case False
  then obtain src where src: "source = Some src" and n: "n \<noteq> 0" by auto
  from assms(2) src n obtain rc1 r1
    where e: "cbuffer_ensure_capacity al (Some b) (byte_length b + n) = Some (rc1, r1)"
    by (auto simp: cbuffer_write_def Let_def split: option.splits)
  from ensure_capacity_inv [OF e assms(1)]
  obtain b1 where b1: "r1 = Some b1" "cbuffer_inv b1" "byte_length b1 = byte_length b"
    "capacity b \<le> capacity b1" "rc1 = 0 \<or> rc1 = - 1"
    "rc1 = 0 \<longrightarrow> byte_length b + n \<le> capacity b1" "rc1 \<noteq> 0 \<longrightarrow> b1 = b" by blast
  from cbuffer_write_unfold [OF n e [unfolded b1(1)], of src] assms(2) src
  have w: "Some (Inr (rc, r)) = (if rc1 \<noteq> 0 then Some (Inr (- 1, Some b1))
      else if unat (byte_length b1) + unat n \<le> unat (capacity b1)
      then Some (Inr (int_of_size_t n,
             Some (b1\<lparr>data := memcpy (data b1) (unat (byte_length b1)) src (unat n),
                      byte_length := byte_length b + n\<rparr>)))
      else Some (Inl (BufferOverrun (byte_length b + n) (int_of_size_t n))))" by simp
  show ?thesis
  proof (cases "rc1 = 0")
    case True
    with w have "r = Some (b1\<lparr>data := memcpy (data b1) (unat (byte_length b1)) src (unat n),
                      byte_length := byte_length b + n\<rparr>)"
      by (auto split: if_splits)
    with True b1 e show ?thesis by (auto simp: cbuffer_inv_def)
  next
    case False
    with w b1 show ?thesis by auto
  qed
qed

lemma cbuffer_write_returns:
  assumes "capacity b \<noteq> 0"
  shows "\<exists>res. cbuffer_write al (Some b) source n = Some res"
proof (cases "source = None \<or> n = 0")
  case True
  then have "cbuffer_write al (Some b) source n = Some (Inr (0, Some b))"
    using cbuffer_write_noop by auto
  then show ?thesis by simp
next
  case False
  then obtain src where src: "source = Some src" and n: "n \<noteq> 0" by auto
  from ensure_capacity_returns [OF assms, of al "byte_length b + n"]
  obtain rc1 b1 where "cbuffer_ensure_capacity al (Some b) (byte_length b + n) = Some (rc1, Some b1)"
    by blast
  from cbuffer_write_unfold [OF n this, of src] src show ?thesis by simp
qed

text \<open>A write whose sum does not wrap never runs past the block.\<close>

lemma cbuffer_write_no_overrun:
  assumes "cbuffer_inv b" and "unat (byte_length b) + unat n < 2 ^ 64"
  shows "cbuffer_write al (Some b) source n \<noteq> Some (Inl f)"
proof (cases "source = None \<or> n = 0")
  case True
  then have "cbuffer_write al (Some b) source n = Some (Inr (0, Some b))"
    using cbuffer_write_noop by auto
  then show ?thesis by simp
next
  case False
  then obtain src where src: "source = Some src" and n: "n \<noteq> 0" by auto
  show ?thesis
  proof (cases "cbuffer_ensure_capacity al (Some b) (byte_length b + n)")
    case None
    then show ?thesis using src n by (simp add: cbuffer_write_def Let_def)
  next
    case (Some p)
    obtain rc1 r1 where p: "p = (rc1, r1)" by (cases p)
    from Some p have e: "cbuffer_ensure_capacity al (Some b) (byte_length b + n) = Some (rc1, r1)"
      by simp
    from ensure_capacity_inv [OF e assms(1)]
    obtain b1 where b1: "r1 = Some b1" "byte_length b1 = byte_length b"
      "rc1 = 0 \<longrightarrow> byte_length b + n \<le> capacity b1" by blast
    show ?thesis
    proof (cases "rc1 = 0")
      case True
      with b1(3) have "byte_length b + n \<le> capacity b1" by simp
      from copy_in_block(1) [OF this assms(2)] b1(2)
      have "unat (byte_length b1) + unat n \<le> unat (capacity b1)" by simp
      with cbuffer_write_unfold [OF n e [unfolded b1(1)], of src] src True
      show ?thesis by simp
    next
      case False
      with cbuffer_write_unfold [OF n e [unfolded b1(1)], of src] src
      show ?thesis by simp
    qed
  qed
qed

lemma CBUFFER_WRITE_VALUE_fields:
  assumes "CBUFFER_WRITE_VALUE mempcy k f (Some b) off v = (rc, r)"
  shows "\<exists>b'. r = Some b' \<and> capacity b' = capacity b \<and> byte_length b' = byte_length b"
  using assms by (auto simp: CBUFFER_WRITE_VALUE_def Let_def split: if_splits)

text \<open>Three bytes written to an empty buffer of capacity 64.\<close>

lemma write3:
  "cbuffer_write generous (Some buf64) (Some (memory_of [1, 2, 3])) 3
     = Some (Inr (3, Some (buf64\<lparr>data := memcpy (data buf64) 0 (memory_of [1, 2, 3]) 3,
                             byte_length := 3\<rparr>)))"
  by (simp add: cbuffer_write_def cbuffer_ensure_capacity_def buf64_def int_of_size_t_def)

section \<open>The invariant\<close>

text \<open>
  Wherever a call yields a buffer, the buffer satisfies \<open>byte_length \<le> capacity\<close>: the
  buffers that \<open>cbuffer_alloc\<close>, \<open>cbuffer_from\<close>, \<open>cbuffer_clone\<close> and \<open>cbuffer_subarray\<close>
  return satisfy it (and have a capacity of at least 1); \<open>cbuffer_ensure_capacity\<close> and
  \<open>cbuffer_write\<close> keep it on the buffer they return, never shrink the capacity, and
  leave the buffer exactly as it was when they fail; the scalar writes change neither
  length nor capacity.  A write yields no buffer only if the sum of the length and
  \<open>src_len\<close> wraps.
\<close>

lemma cbuffer_inv_kept:
  "(\<forall>b. cbuffer_alloc al c = Some b \<longrightarrow> cbuffer_inv b \<and> capacity b \<noteq> 0)
   \<and> (\<forall>b. cbuffer_from al source n = Some b \<longrightarrow> cbuffer_inv b \<and> capacity b \<noteq> 0)
   \<and> (\<forall>b. cbuffer_clone al buffer = Some b \<longrightarrow> cbuffer_inv b \<and> capacity b \<noteq> 0)
   \<and> (\<forall>b. cbuffer_subarray al buffer start end0 = Some b \<longrightarrow> cbuffer_inv b \<and> capacity b \<noteq> 0)
   \<and> (\<forall>b rc r. cbuffer_inv b \<and> cbuffer_ensure_capacity al (Some b) sz = Some (rc, r) \<longrightarrow>
          (\<exists>b'. r = Some b' \<and> cbuffer_inv b' \<and> capacity b \<le> capacity b'
             \<and> (rc \<noteq> 0 \<longrightarrow> b' = b)))
   \<and> (\<forall>b rc r. cbuffer_inv b \<and> cbuffer_write al (Some b) source n = Some (Inr (rc, r)) \<longrightarrow>
          (\<exists>b'. r = Some b' \<and> cbuffer_inv b' \<and> capacity b \<le> capacity b'
             \<and> ((\<exists>r1. cbuffer_ensure_capacity al (Some b) (byte_length b + n) = Some (- 1, r1))
                  \<longrightarrow> b' = b)))
   \<and> (\<forall>b f. cbuffer_inv b \<and> cbuffer_write al (Some b) source n = Some (Inl f) \<longrightarrow>
          2 ^ 64 \<le> unat (byte_length b) + unat n)
   \<and> (\<forall>b. capacity b \<noteq> 0 \<longrightarrow>
          (\<exists>rc b'. cbuffer_ensure_capacity al (Some b) sz = Some (rc, Some b'))
          \<and> (\<exists>res. cbuffer_write al (Some b) source n = Some res))
   \<and> (\<forall>b rc r. cbuffer_inv b \<and> CBUFFER_WRITE_VALUE mempcy k f (Some b) off v = (rc, r) \<longrightarrow>
          (\<exists>b'. r = Some b' \<and> cbuffer_inv b' \<and> capacity b' = capacity b
             \<and> byte_length b' = byte_length b))"
proof -
  have a: "\<forall>b. cbuffer_alloc al c = Some b \<longrightarrow> cbuffer_inv b \<and> capacity b \<noteq> 0"
    using cbuffer_alloc_inv by blast
  have b: "\<forall>b. cbuffer_from al source n = Some b \<longrightarrow> cbuffer_inv b \<and> capacity b \<noteq> 0"
    using cbuffer_from_inv by blast
  have c: "\<forall>b. cbuffer_clone al buffer = Some b \<longrightarrow> cbuffer_inv b \<and> capacity b \<noteq> 0"
    using cbuffer_clone_inv by blast
  have d: "\<forall>b. cbuffer_subarray al buffer start end0 = Some b \<longrightarrow> cbuffer_inv b \<and> capacity b \<noteq> 0"
    using cbuffer_subarray_inv by blast
  have e: "\<forall>b rc r. cbuffer_inv b \<and> cbuffer_ensure_capacity al (Some b) sz = Some (rc, r) \<longrightarrow>
          (\<exists>b'. r = Some b' \<and> cbuffer_inv b' \<and> capacity b \<le> capacity b'
             \<and> (rc \<noteq> 0 \<longrightarrow> b' = b))"
  proof (intro allI impI)
    fix b rc r
    assume "cbuffer_inv b \<and> cbuffer_ensure_capacity al (Some b) sz = Some (rc, r)"
    then have "cbuffer_ensure_capacity al (Some b) sz = Some (rc, r)" "cbuffer_inv b" by simp_all
    from ensure_capacity_inv [OF this]
    show "\<exists>b'. r = Some b' \<and> cbuffer_inv b' \<and> capacity b \<le> capacity b' \<and> (rc \<noteq> 0 \<longrightarrow> b' = b)"
      by blast
  qed
  have f: "\<forall>b rc r. cbuffer_inv b \<and> cbuffer_write al (Some b) source n = Some (Inr (rc, r)) \<longrightarrow>
          (\<exists>b'. r = Some b' \<and> cbuffer_inv b' \<and> capacity b \<le> capacity b'
             \<and> ((\<exists>r1. cbuffer_ensure_capacity al (Some b) (byte_length b + n) = Some (- 1, r1))
                  \<longrightarrow> b' = b))"
    using cbuffer_write_inv by blast
  have o: "\<forall>b f. cbuffer_inv b \<and> cbuffer_write al (Some b) source n = Some (Inl f) \<longrightarrow>
          2 ^ 64 \<le> unat (byte_length b) + unat n"
  proof (intro allI impI)
    fix b f
    assume p: "cbuffer_inv b \<and> cbuffer_write al (Some b) source n = Some (Inl f)"
    show "2 ^ 64 \<le> unat (byte_length b) + unat n"
    proof (rule ccontr)
      assume "\<not> 2 ^ 64 \<le> unat (byte_length b) + unat n"
      then have "unat (byte_length b) + unat n < 2 ^ 64" by simp
      with p cbuffer_write_no_overrun [of b n al source f] show False by simp
    qed
  qed
  have g: "\<forall>b. capacity b \<noteq> 0 \<longrightarrow>
          (\<exists>rc b'. cbuffer_ensure_capacity al (Some b) sz = Some (rc, Some b'))
          \<and> (\<exists>res. cbuffer_write al (Some b) source n = Some res)"
    using ensure_capacity_returns cbuffer_write_returns by blast
  have h: "\<forall>b rc r. cbuffer_inv b \<and> CBUFFER_WRITE_VALUE mempcy k f (Some b) off v = (rc, r) \<longrightarrow>
          (\<exists>b'. r = Some b' \<and> cbuffer_inv b' \<and> capacity b' = capacity b
             \<and> byte_length b' = byte_length b)"
  proof (intro allI impI)
    fix b rc r
    assume p: "cbuffer_inv b \<and> CBUFFER_WRITE_VALUE mempcy k f (Some b) off v = (rc, r)"
    then have "CBUFFER_WRITE_VALUE mempcy k f (Some b) off v = (rc, r)" by simp
    from CBUFFER_WRITE_VALUE_fields [OF this] p
    show "\<exists>b'. r = Some b' \<and> cbuffer_inv b' \<and> capacity b' = capacity b
             \<and> byte_length b' = byte_length b"
      by (auto simp: cbuffer_inv_def)
  qed
  from a b c d e f o g h show ?thesis by (intro conjI)
qed


section \<open>Appending\<close>

text \<open>
  C4, as amended.  When \<open>len\<close> is 0 or the source is absent, \<open>cbuffer_write\<close> returns 0
  and changes nothing.  For a buffer that satisfies the invariant, a \<open>len\<close> of at most
  \<open>INT_MAX\<close> and a sum \<open>byte_length + len\<close> that fits into \<open>size_t\<close>, the copy stays
  inside the block, and a write that succeeds returns \<open>len\<close>, leaves the length at the
  old length plus \<open>len\<close>, and the bytes in use are the old ones followed by the \<open>len\<close>
  bytes of the source; it succeeds whenever the allocator grants the request.
\<close>

theorem cbuffer_write_appends:
  assumes "cbuffer_inv b" and "unat (byte_length b) + unat n < 2 ^ 64"
    and "int (unat n) \<le> INT_MAX"
  shows "cbuffer_write al buffer None n = Some (Inr (0, buffer))
    \<and> cbuffer_write al buffer source 0 = Some (Inr (0, buffer))
    \<and> (\<forall>rc r. cbuffer_write al (Some b) (Some src) n = Some (Inr (rc, r)) \<and> rc \<noteq> - 1 \<longrightarrow>
          (\<exists>b'. r = Some b' \<and> rc = int (unat n)
             \<and> unat (byte_length b') = unat (byte_length b) + unat n
             \<and> contents b' = contents b @ map src [0..<unat n]
             \<and> byte_length b' \<le> capacity b'))
    \<and> (capacity b \<noteq> 0 \<and> (\<forall>m. can_alloc al m) \<longrightarrow>
          (\<exists>b'. cbuffer_write al (Some b) (Some src) n = Some (Inr (int (unat n), Some b'))))
    \<and> (\<forall>f. cbuffer_write al (Some b) (Some src) n \<noteq> Some (Inl f))"
proof -
  have "unat n < 2147483648" using assms(3) unfolding INT_MAX_def by linarith
  then have small: "unat n < 2 ^ 31" by simp
  have rcn: "int_of_size_t n = int (unat n)" using small by (rule int_of_size_t_small)
  have len: "unat (byte_length b + n) = unat (byte_length b) + unat n"
    using assms(2) by (rule unat_sum_no_wrap)
  have nofault: "\<forall>f. cbuffer_write al (Some b) (Some src) n \<noteq> Some (Inl f)"
    using cbuffer_write_no_overrun [OF assms(1,2)] by blast
  have written: "cbuffer_write al (Some b) (Some src) n =
     (if rc1 \<noteq> 0 then Some (Inr (- 1, Some b1))
      else Some (Inr (int_of_size_t n,
             Some (b1\<lparr>data := memcpy (data b1) (unat (byte_length b1)) src (unat n),
                      byte_length := byte_length b + n\<rparr>))))"
    if n: "n \<noteq> 0"
      and e: "cbuffer_ensure_capacity al (Some b) (byte_length b + n) = Some (rc1, Some b1)"
    for rc1 b1
  proof (cases "rc1 = 0")
    case True
    from ensure_capacity_inv [OF e assms(1)] True
    have "byte_length b1 = byte_length b" "byte_length b + n \<le> capacity b1" by simp_all
    with copy_in_block(1) [OF this(2) assms(2)]
    have "unat (byte_length b1) + unat n \<le> unat (capacity b1)" by simp
    with cbuffer_write_unfold [OF n e, of src] True show ?thesis by simp
  next
    case False
    with cbuffer_write_unfold [OF n e, of src] show ?thesis by simp
  qed
  have appended: "\<exists>b'. r = Some b' \<and> rc = int (unat n)
             \<and> unat (byte_length b') = unat (byte_length b) + unat n
             \<and> contents b' = contents b @ map src [0..<unat n]
             \<and> byte_length b' \<le> capacity b'"
    if w: "cbuffer_write al (Some b) (Some src) n = Some (Inr (rc, r))" and rc: "rc \<noteq> - 1"
    for rc r
  proof (cases "n = 0")
    case True
    with w have "rc = 0" "r = Some b" by (simp_all add: cbuffer_write_def)
    with True assms(1) show ?thesis by (simp add: cbuffer_inv_def)
  next
    case False
    from w False obtain rc1 r1
      where e: "cbuffer_ensure_capacity al (Some b) (byte_length b + n) = Some (rc1, r1)"
      by (auto simp: cbuffer_write_def Let_def split: option.splits)
    from ensure_capacity_inv [OF e assms(1)]
    obtain b1 where b1: "r1 = Some b1" "byte_length b1 = byte_length b"
      "rc1 = 0 \<longrightarrow> byte_length b + n \<le> capacity b1 \<and> contents b1 = contents b" by blast
    have e1: "cbuffer_ensure_capacity al (Some b) (byte_length b + n) = Some (rc1, Some b1)"
      using e b1(1) by simp
    have eq: "(Some (Inr (rc, r)) :: (fault + int \<times> CBuffer option) option) = (if rc1 \<noteq> 0 then Some (Inr (- 1, Some b1))
      else Some (Inr (int_of_size_t n,
             Some (b1\<lparr>data := memcpy (data b1) (unat (byte_length b1)) src (unat n),
                      byte_length := byte_length b + n\<rparr>))))"
      using written [OF False e1] w by (simp only:)
    with rc have rc1: "rc1 = 0" by (auto split: if_splits)
    let ?b' = "b1\<lparr>data := memcpy (data b1) (unat (byte_length b1)) src (unat n),
                      byte_length := byte_length b + n\<rparr>"
    from eq rc1 have res: "rc = int_of_size_t n" "r = Some ?b'" by simp_all
    have "contents ?b' = map (memcpy (data b1) (unat (byte_length b)) src (unat n))
        [0..<unat (byte_length b) + unat n]"
      by (simp add: contents_def len b1(2))
    also have "\<dots> = map (data b1) [0..<unat (byte_length b)] @ map src [0..<unat n]"
      by (rule map_memcpy_upt)
    also have "map (data b1) [0..<unat (byte_length b)] = contents b"
      using b1(2,3) rc1 by (simp add: contents_def)
    finally have "contents ?b' = contents b @ map src [0..<unat n]" .
    with res rcn len b1 rc1 show ?thesis by simp
  qed
  have granted: "\<exists>b'. cbuffer_write al (Some b) (Some src) n = Some (Inr (int (unat n), Some b'))"
    if cap: "capacity b \<noteq> 0" and al: "\<forall>m. can_alloc al m"
  proof (cases "n = 0")
    case True
    then show ?thesis by (simp add: cbuffer_write_def)
  next
    case False
    from ensure_capacity_returns [OF cap, of al "byte_length b + n"]
    obtain rc1 b1 where e: "cbuffer_ensure_capacity al (Some b) (byte_length b + n) = Some (rc1, Some b1)"
      by blast
    then have "rc1 = 0" using al by (cases rule: ensure_capacity_cases) simp_all
    with written [OF False e] rcn show ?thesis by simp
  qed
  from appended granted nofault show ?thesis by (simp add: cbuffer_write_noop)
qed

lemma grow_2G: "grow_loop 64 0x80000000 64 = Some 0x80000000"
  by (simp add: grow_loop.simps grow_step_double)

text \<open>
  A write of \<open>2 ^ 31\<close> bytes to an empty buffer succeeds, the length becomes
  \<open>2 ^ 31\<close>, and the value returned is \<open>(int) src_len = -2147483648\<close>, not the number of
  bytes written.
\<close>

theorem cbuffer_write_returns_negative:
  "result_code (cbuffer_write generous (Some buf64) (Some zero_memory) 0x80000000)
     = Some (- 2147483648)
   \<and> result_length (cbuffer_write generous (Some buf64) (Some zero_memory) 0x80000000)
     = Some 0x80000000
   \<and> unat (0x80000000 :: size_t) = 2147483648"
  by (simp add: result_code_def result_length_def cbuffer_write_def
      cbuffer_ensure_capacity_def buf64_def generous_def grow_2G int_of_size_t_def)

theorem cbuffer_write_appends_witness:
  "cbuffer_write generous (Some buf64) (Some (memory_of [1, 2, 3])) 3
     = Some (Inr (3, Some (buf64\<lparr>data := memcpy (data buf64) 0 (memory_of [1, 2, 3]) 3,
                             byte_length := 3\<rparr>)))
   \<and> contents (buf64\<lparr>data := memcpy (data buf64) 0 (memory_of [1, 2, 3]) 3, byte_length := 3\<rparr>)
     = contents buf64 @ map (memory_of [1, 2, 3]) [0..<unat (3 :: size_t)]"
proof -
  have h: "cbuffer_inv buf64" "unat (byte_length buf64) + unat (3 :: size_t) < 2 ^ 64"
    "int (unat (3 :: size_t)) \<le> INT_MAX"
    by (simp_all add: cbuffer_inv_def buf64_def INT_MAX_def)
  from cbuffer_write_appends [OF h, of generous "Some buf64" None "memory_of [1, 2, 3]"] write3
  show ?thesis by simp
qed



section \<open>Copies\<close>

lemma contents_from:
  "contents \<lparr>byte_length = n, capacity = c, data = memcpy d 0 src (unat n)\<rparr>
     = map src [0..<unat n]"
  using map_memcpy_upt [of d 0 src "unat n"] by (simp add: contents_def)

lemma cbuffer_from_Some:
  assumes "n \<noteq> 0" and "cbuffer_from al (Some src) n = Some c"
  shows "byte_length c = n \<and> capacity c = n \<and> contents c = map src [0..<unat n]"
proof -
  from assms have "c = \<lparr>byte_length = n, capacity = n, data = memcpy (fresh al) 0 src (unat n)\<rparr>"
    by (auto simp: cbuffer_from_def split: if_splits)
  then show ?thesis by (simp add: contents_from)
qed

lemma cbuffer_from_granted:
  assumes "\<forall>m. can_alloc al m"
  shows "\<exists>c. cbuffer_from al source n = Some c" and "\<exists>c. cbuffer_alloc al k = Some c"
  using assms by (auto simp: cbuffer_from_def cbuffer_alloc_def Let_def split: option.splits)

text \<open>
  C5, as amended.  A clone that is returned has the length and the bytes of the
  original, so the two are equal.  When the original is not empty the capacity of the
  clone is its length; the clone of an empty buffer comes from \<open>cbuffer_alloc\<close> and has
  the default capacity.  The clone is returned whenever the allocator grants the
  requests.
\<close>

theorem cbuffer_clone_copies:
  "(\<forall>c. cbuffer_clone al (Some b) = Some c \<longrightarrow>
       byte_length c = byte_length b \<and> contents c = contents b \<and> cbuffer_equals b c
       \<and> (byte_length b \<noteq> 0 \<longrightarrow> capacity c = byte_length c)
       \<and> (byte_length b = 0 \<longrightarrow> capacity c = CBUFFER_DEFAULT_CAPACITY))
   \<and> ((\<forall>m. can_alloc al m) \<longrightarrow> (\<exists>c. cbuffer_clone al (Some b) = Some c))"
proof -
  have copy: "byte_length c = byte_length b \<and> contents c = contents b \<and> cbuffer_equals b c
       \<and> (byte_length b \<noteq> 0 \<longrightarrow> capacity c = byte_length c)
       \<and> (byte_length b = 0 \<longrightarrow> capacity c = CBUFFER_DEFAULT_CAPACITY)"
    if "cbuffer_clone al (Some b) = Some c" for c
  proof (cases "byte_length b = 0")
    case True
    with that have "cbuffer_alloc al CBUFFER_DEFAULT_CAPACITY = Some c"
      by (simp add: cbuffer_clone_def cbuffer_from_def)
    then have "byte_length c = 0" "capacity c = CBUFFER_DEFAULT_CAPACITY"
      by (auto simp: cbuffer_alloc_def CBUFFER_DEFAULT_CAPACITY_def Let_def split: if_splits)
    with True show ?thesis by (simp add: cbuffer_equals_def contents_def)
  next
    case False
    from that have "cbuffer_from al (Some (data b)) (byte_length b) = Some c"
      by (simp add: cbuffer_clone_def)
    from cbuffer_from_Some [OF False this]
    have "byte_length c = byte_length b" "capacity c = byte_length b"
      "contents c = map (data b) [0..<unat (byte_length b)]" by simp_all
    moreover have "contents b = map (data b) [0..<unat (byte_length b)]" by (simp only: contents_def)
    ultimately show ?thesis using False by (simp only: cbuffer_equals_def) simp
  qed
  have "(\<forall>m. can_alloc al m) \<longrightarrow> (\<exists>c. cbuffer_clone al (Some b) = Some c)"
    using cbuffer_from_granted(1) by (simp add: cbuffer_clone_def)
  with copy show ?thesis by blast
qed

text \<open>The clone of an empty buffer has length 0 and capacity 64.\<close>

theorem cbuffer_clone_empty_headroom:
  "byte_length buf64 = 0
   \<and> map_option byte_length (cbuffer_clone generous (Some buf64)) = Some 0
   \<and> map_option capacity (cbuffer_clone generous (Some buf64)) = Some 64"
  by (simp add: cbuffer_clone_def cbuffer_from_def cbuffer_alloc_def generous_def buf64_def
      CBUFFER_DEFAULT_CAPACITY_def sizeof_CBuffer_def)

lemma contents_buf3: "contents buf3 = [1, 2, 3]"
  by (simp add: contents_def buf3_def memory_of_def upt_rec)

theorem cbuffer_clone_copies_witness:
  "\<exists>c. cbuffer_clone generous (Some buf3) = Some c \<and> contents c = [1, 2, 3]
        \<and> byte_length c = 3 \<and> capacity c = 3"
proof -
  have "\<forall>m. can_alloc generous m" by (simp add: generous_def)
  with cbuffer_clone_copies [of generous buf3]
  obtain c where c: "cbuffer_clone generous (Some buf3) = Some c" by blast
  with cbuffer_clone_copies [of generous buf3]
  have "byte_length c = byte_length buf3" "contents c = contents buf3"
    "byte_length buf3 \<noteq> 0 \<longrightarrow> capacity c = byte_length c" by blast+
  with c contents_buf3 show ?thesis by (simp add: buf3_def)
qed







section \<open>Bytes and scalars\<close>

text \<open>Bit \<open>k\<close> of a scalar is bit \<open>k mod 8\<close> of its byte \<open>k div 8\<close>.\<close>

lemma byte_index:
  assumes "8 * n \<le> (k::nat)" and "k < 8 * n + 8"
  shows "k div 8 = n \<and> k mod 8 = k - 8 * n"
proof -
  define r where "r = k - 8 * n"
  have k: "k = r + n * 8" and r: "r < 8" using assms by (simp_all add: r_def)
  show ?thesis unfolding k using r by simp
qed

lemma bit_byte_lt: "bit (x :: byte) k \<Longrightarrow> k < 8"
  using bit_imp_le_length [of x k] by simp

lemma bit_push_byte:
  "bit (push_bit (8 * n) (ucast (x :: byte)) :: 'a::len word) k \<longleftrightarrow>
     8 * n \<le> k \<and> k < LENGTH('a) \<and> bit x (k - 8 * n)"
  by (auto simp: bit_push_bit_iff bit_ucast_iff)

lemma bit_word_of:
  "bit (word_of m n :: 'a::len word) k \<longleftrightarrow>
     k < LENGTH('a) \<and> k < 8 * n \<and> bit (m (k div 8)) (k mod 8)"
proof (induction n)
  case 0
  then show ?case by simp
next
  case (Suc n)
  have step: "bit (word_of m (Suc n) :: 'a word) k \<longleftrightarrow>
      bit (word_of m n :: 'a word) k \<or> (8 * n \<le> k \<and> k < LENGTH('a) \<and> bit (m n) (k - 8 * n))"
    by (simp only: word_of.simps bit_or_iff bit_push_byte)
  show ?case
  proof (cases "k < 8 * n")
    case True
    then show ?thesis unfolding step Suc.IH by simp
  next
    case False
    then have ge: "8 * n \<le> k" by simp
    show ?thesis
    proof (cases "k < 8 * n + 8")
      case True
      from byte_index [OF ge True] have "k div 8 = n" "k mod 8 = k - 8 * n" by simp_all
      then show ?thesis unfolding step Suc.IH using ge True False by simp
    next
      case False
      then have "\<not> k - 8 * n < 8" by simp
      then have "\<not> bit (m n) (k - 8 * n)" using bit_byte_lt by blast
      then show ?thesis unfolding step Suc.IH using ge False by simp
    qed
  qed
qed

lemma bit_bytes_of:
  "bit (bytes_of (v :: 'a::len word) j) k \<longleftrightarrow> k < 8 \<and> bit v (8 * j + k)"
  by (simp add: bytes_of_def bit_ucast_iff bit_drop_bit_eq)

lemma bytes_of_word_of:
  assumes "j < n" and "8 * n \<le> LENGTH('a::len)"
  shows "bytes_of (word_of m n :: 'a word) j = m j"
proof (rule bit_word_eqI)
  fix k assume "k < LENGTH(8)"
  then have k: "k < 8" by simp
  have lt: "8 * j + k < 8 * n" using assms(1) k by simp
  then have len: "8 * j + k < LENGTH('a)" using assms(2) by simp
  have "(8 * j + k) div 8 = j" "(8 * j + k) mod 8 = k" using k by simp_all
  then show "bit (bytes_of (word_of m n :: 'a word) j) k = bit (m j) k"
    using k lt len by (simp add: bit_bytes_of bit_word_of)
qed

lemma memcpy_bytes_back:
  assumes "8 * n \<le> LENGTH('a::len)"
  shows "memcpy d off (bytes_of (word_of (ptr_add d off) n :: 'a word)) n = d"
proof
  fix i
  show "memcpy d off (bytes_of (word_of (ptr_add d off) n :: 'a word)) n i = d i"
  proof (cases "off \<le> i \<and> i < off + n")
    case True
    then have "i - off < n" by linarith
    from bytes_of_word_of [OF this assms, of "ptr_add d off"] True
    show ?thesis by (simp add: memcpy_def ptr_add_def)
  next
    case False
    then show ?thesis by (auto simp: memcpy_def)
  qed
qed

text \<open>A scalar is determined by its bytes, and reversing the bytes twice gives it back.\<close>

lemma bit_at_byte:
  assumes "k < 8"
  shows "bit (v :: 'a::len word) (8 * j + k) \<longleftrightarrow> bit (bytes_of v j) k"
  using assms by (simp add: bit_bytes_of)

lemma word_eq_bytes:
  fixes v w :: "'a::len word"
  assumes len: "LENGTH('a) \<le> 8 * n" and eq: "\<And>j. j < n \<Longrightarrow> bytes_of v j = bytes_of w j"
  shows "v = w"
proof (rule bit_word_eqI)
  fix k assume k: "k < LENGTH('a)"
  have split: "k = 8 * (k div 8) + k mod 8" by simp
  have m: "k mod 8 < 8" by simp
  have "8 * (k div 8) \<le> k" by simp
  also have "k < 8 * n" using k len by simp
  finally have j: "k div 8 < n" by simp
  have "bit v k = bit (bytes_of v (k div 8)) (k mod 8)"
    using bit_at_byte [OF m, of v "k div 8"] by simp
  also have "\<dots> = bit (bytes_of w (k div 8)) (k mod 8)" using eq [OF j] by simp
  also have "\<dots> = bit w k" using bit_at_byte [OF m, of w "k div 8"] by simp
  finally show "bit v k = bit w k" .
qed

lemma swap_involution:
  fixes swap :: "'a::len word \<Rightarrow> 'a word"
  assumes len: "LENGTH('a) \<le> 8 * n"
    and rev: "\<And>v j. j < n \<Longrightarrow> bytes_of (swap v) j = bytes_of v (n - 1 - j)"
  shows "swap (swap v) = v"
proof (rule word_eq_bytes [OF len])
  fix j assume j: "j < n"
  then have "n - 1 - j < n" by simp
  from rev [OF j, of "swap v"] rev [OF this, of v] j
  show "bytes_of (swap (swap v)) j = bytes_of v j" by simp
qed

subsection \<open>The byte swaps\<close>

text \<open>
  The invariant of the loop of \<open>swap_endian_64\<close>: after the rounds from \<open>i\<close> on, byte
  \<open>j\<close> of the result holds byte \<open>7 - j\<close> of the value for every \<open>j\<close> with \<open>i + j \<le> 7\<close>.
\<close>

lemma ff_mask: "(0xFF :: 64 word) = mask 8"
  by (simp add: mask_eq_exp_minus_1)

lemma bit_swap_term:
  assumes "k < 8"
  shows "bit (push_bit (p * 8) (drop_bit (q * 8) (v :: 64 word) AND 0xFF)) (8 * j + k)
     \<longleftrightarrow> j = p \<and> p < 8 \<and> bit v (8 * q + k)"
proof (cases "j = p")
  case True
  have "8 * p + k < 64 \<longleftrightarrow> p < 8" using assms by linarith
  with True assms show ?thesis
    by (auto simp: ff_mask bit_push_bit_iff bit_and_iff bit_drop_bit_eq bit_mask_iff mult.commute)
next
  case False
  then have "p * 8 \<le> 8 * j + k \<Longrightarrow> \<not> 8 * j + k - p * 8 < 8" using assms by linarith
  with False show ?thesis
    by (simp add: ff_mask bit_push_bit_iff bit_and_iff bit_mask_iff)
qed

lemma bit_swap_endian_64_loop:
  assumes "k < 8"
  shows "bit (swap_endian_64_loop v i r) (8 * j + k)
     \<longleftrightarrow> bit r (8 * j + k) \<or> (i + j \<le> 7 \<and> bit v (8 * (7 - j) + k))"
proof (induction v i r rule: swap_endian_64_loop.induct)
  case (1 v i r)
  show ?case
  proof (cases "i < 8")
    case True
    have t: "bit (push_bit ((7 - i) * 8) (drop_bit (i * 8) v AND 0xFF)) (8 * j + k)
       \<longleftrightarrow> j = 7 - i \<and> bit v (8 * i + k)"
      using bit_swap_term [OF assms, of "7 - i" i v j] True by auto
    have unfold: "swap_endian_64_loop v i r = swap_endian_64_loop v (i + 1)
        (r OR push_bit ((7 - i) * 8) (drop_bit (i * 8) v AND 0xFF))"
      using True by (subst swap_endian_64_loop.simps) simp
    have ih: "bit (swap_endian_64_loop v i r) (8 * j + k) \<longleftrightarrow>
        bit r (8 * j + k) \<or> (j = 7 - i \<and> bit v (8 * i + k))
        \<or> (i + 1 + j \<le> 7 \<and> bit v (8 * (7 - j) + k))"
      unfolding unfold "1.IH" [OF True] bit_or_iff t by blast
    consider (eq) "i + j = 7" | (lt) "i + j < 7" | (gt) "7 < i + j" by linarith
    then show ?thesis
    proof cases
      case eq
      then have "j = 7 - i" "i = 7 - j" "\<not> i + 1 + j \<le> 7" "i + j \<le> 7" by simp_all
      then show ?thesis unfolding ih by metis
    next
      case lt
      then have "j \<noteq> 7 - i" "i + 1 + j \<le> 7" "i + j \<le> 7" by simp_all
      then show ?thesis unfolding ih by simp
    next
      case gt
      then have "j \<noteq> 7 - i" "\<not> i + 1 + j \<le> 7" "\<not> i + j \<le> 7" using True by simp_all
      then show ?thesis unfolding ih by simp
    qed
  next
    case False
    then have "\<not> i + j \<le> 7" by simp
    with False show ?thesis by (subst swap_endian_64_loop.simps) simp
  qed
qed

lemma bytes_of_swap_endian_64:
  assumes "j < 8"
  shows "bytes_of (swap_endian_64 v) j = bytes_of v (8 - 1 - j)"
proof (rule bit_word_eqI)
  fix k assume "k < LENGTH(8)"
  then have k: "k < 8" by simp
  from bit_swap_endian_64_loop [OF k, of v 0 0 j] assms k
  show "bit (bytes_of (swap_endian_64 v) j) k = bit (bytes_of v (8 - 1 - j)) k"
    by (simp add: bit_bytes_of swap_endian_64_def)
qed

lemma masks32:
  "(0x0000FF00 :: 32 word) = push_bit 8 (mask 8)"
  "(0x00FF0000 :: 32 word) = push_bit 16 (mask 8)"
  by (simp_all add: mask_eq_exp_minus_1)

lemma bit32_lt: "bit (v :: 32 word) n \<Longrightarrow> n < 32"
  using bit_imp_le_length [of v n] by simp

lemma swap32_t1:
  "bit (push_bit 24 (v :: 32 word)) n \<longleftrightarrow> 24 \<le> n \<and> n < 32 \<and> bit v (n - 24)"
  by (auto simp: bit_push_bit_iff)

lemma swap32_t2:
  "bit (push_bit 8 ((v :: 32 word) AND 0x0000FF00)) n \<longleftrightarrow> 16 \<le> n \<and> n < 24 \<and> bit v (n - 8)"
proof -
  have "bit (push_bit 8 (v AND 0x0000FF00)) n \<longleftrightarrow>
      8 \<le> n \<and> n < 32 \<and> bit v (n - 8) \<and> 8 \<le> n - 8 \<and> n - 8 - 8 < 8"
    unfolding masks32 by (auto simp: bit_push_bit_iff bit_and_iff bit_mask_iff)
  also have "\<dots> \<longleftrightarrow> 16 \<le> n \<and> n < 24 \<and> bit v (n - 8)" by (cases "bit v (n - 8)") auto
  finally show ?thesis .
qed

lemma swap32_t3:
  "bit (drop_bit 8 ((v :: 32 word) AND 0x00FF0000)) n \<longleftrightarrow> 8 \<le> n \<and> n < 16 \<and> bit v (n + 8)"
proof -
  have "bit (drop_bit 8 (v AND 0x00FF0000)) n \<longleftrightarrow>
      bit v (8 + n) \<and> 16 \<le> 8 + n \<and> 8 + n - 16 < 8"
    unfolding masks32 by (auto simp: bit_drop_bit_eq bit_push_bit_iff bit_and_iff bit_mask_iff dest: bit32_lt)
  also have "\<dots> \<longleftrightarrow> 8 \<le> n \<and> n < 16 \<and> bit v (n + 8)"
    by (cases "bit v (n + 8)") (auto simp: add.commute)
  finally show ?thesis .
qed

lemma swap32_t4:
  "bit (drop_bit 24 (v :: 32 word)) n \<longleftrightarrow> n < 8 \<and> bit v (n + 24)"
  by (auto simp: bit_drop_bit_eq add.commute dest: bit32_lt)

lemma bit_swap_endian_32:
  "bit (swap_endian_32 v) n \<longleftrightarrow>
     (24 \<le> n \<and> n < 32 \<and> bit v (n - 24))
     \<or> (16 \<le> n \<and> n < 24 \<and> bit v (n - 8))
     \<or> (8 \<le> n \<and> n < 16 \<and> bit v (n + 8))
     \<or> (n < 8 \<and> bit v (n + 24))"
  unfolding swap_endian_32_def bit_or_iff swap32_t1 swap32_t2 swap32_t3 swap32_t4 by blast

lemma bytes_of_swap_endian_32:
  assumes "j < 4"
  shows "bytes_of (swap_endian_32 v) j = bytes_of v (4 - 1 - j)"
proof (rule bit_word_eqI)
  fix k assume "k < LENGTH(8)"
  then have k: "k < 8" by simp
  from assms consider "j = 0" | "j = 1" | "j = 2" | "j = 3" by linarith
  then show "bit (bytes_of (swap_endian_32 v) j) k = bit (bytes_of v (4 - 1 - j)) k"
  proof cases
    case 1
    with k show ?thesis by (simp add: bit_bytes_of bit_swap_endian_32 add.commute)
  next
    case 2
    with k show ?thesis by (simp add: bit_bytes_of bit_swap_endian_32 add.commute)
  next
    case 3
    with k show ?thesis by (simp add: bit_bytes_of bit_swap_endian_32 add.commute)
  next
    case 4
    with k show ?thesis by (simp add: bit_bytes_of bit_swap_endian_32 add.commute)
  qed
qed

lemma bit16_lt: "bit (v :: 16 word) n \<Longrightarrow> n < 16"
  using bit_imp_le_length [of v n] by simp

lemma bit_swap_endian_16:
  "bit (swap_endian_16 v) n \<longleftrightarrow> (8 \<le> n \<and> n < 16 \<and> bit v (n - 8)) \<or> (n < 8 \<and> bit v (n + 8))"
proof -
  have a: "bit (push_bit 8 (ucast v :: 32 word)) n \<longleftrightarrow> 8 \<le> n \<and> n < 32 \<and> bit v (n - 8)"
    by (auto simp: bit_push_bit_iff bit_ucast_iff)
  have b: "bit (drop_bit 8 (ucast v :: 32 word)) n \<longleftrightarrow> bit v (n + 8)"
    by (auto simp: bit_drop_bit_eq bit_ucast_iff add.commute dest: bit16_lt)
  have "bit (swap_endian_16 v) n \<longleftrightarrow>
      n < 16 \<and> ((8 \<le> n \<and> n < 32 \<and> bit v (n - 8)) \<or> bit v (n + 8))"
    unfolding swap_endian_16_def by (simp add: bit_ucast_iff bit_or_iff a b)
  also have "\<dots> \<longleftrightarrow> (8 \<le> n \<and> n < 16 \<and> bit v (n - 8)) \<or> (n < 8 \<and> bit v (n + 8))"
    using bit16_lt [of v "n + 8"] by auto
  finally show ?thesis .
qed

lemma bytes_of_swap_endian_16:
  assumes "j < 2"
  shows "bytes_of (swap_endian_16 v) j = bytes_of v (2 - 1 - j)"
proof (rule bit_word_eqI)
  fix k assume "k < LENGTH(8)"
  then have k: "k < 8" by simp
  from assms consider "j = 0" | "j = 1" by linarith
  then show "bit (bytes_of (swap_endian_16 v) j) k = bit (bytes_of v (2 - 1 - j)) k"
  proof cases
    case 1
    with k show ?thesis by (simp add: bit_bytes_of bit_swap_endian_16 add.commute)
  next
    case 2
    with k show ?thesis by (simp add: bit_bytes_of bit_swap_endian_16 add.commute)
  qed
qed

subsection \<open>The value of a byte sequence\<close>

lemma be_step:
  "(acc :: 'a::len word) * 256 + ucast (x :: byte) = push_bit 8 acc OR ucast x"
proof -
  have "push_bit 8 acc + ucast x = push_bit 8 acc OR ucast x"
  proof (rule disjunctive_add)
    fix n
    show "\<not> bit (push_bit 8 acc) n \<or> \<not> bit (ucast x :: 'a word) n"
      using bit_byte_lt [of x n] by (auto simp: bit_push_bit_iff bit_ucast_iff)
  qed
  then show ?thesis by (simp add: push_bit_eq_mult)
qed

lemma be_value_snoc:
  "(be_value (bs @ [x]) :: 'a::len word) = push_bit 8 (be_value bs) OR ucast x"
  by (simp add: be_value_def be_step)

lemma bytes_of_snoc_0:
  assumes "8 \<le> LENGTH('a::len)"
  shows "bytes_of (push_bit 8 (w :: 'a word) OR ucast (x :: byte)) 0 = x"
proof (rule bit_word_eqI)
  fix k assume "k < LENGTH(8)"
  then have "k < 8" by simp
  with assms show "bit (bytes_of (push_bit 8 w OR ucast x) 0) k = bit x k"
    by (simp add: bit_bytes_of bit_or_iff bit_push_bit_iff bit_ucast_iff)
qed

lemma bytes_of_snoc_Suc:
  assumes "8 * Suc j + 8 \<le> LENGTH('a::len)"
  shows "bytes_of (push_bit 8 (w :: 'a word) OR ucast (x :: byte)) (Suc j) = bytes_of w j"
proof (rule bit_word_eqI)
  fix k assume "k < LENGTH(8)"
  then have k: "k < 8" by simp
  have "\<not> bit x (8 * Suc j + k)" using bit_byte_lt [of x "8 * Suc j + k"] by auto
  moreover have "8 * Suc j + k - 8 = 8 * j + k" by simp
  moreover have "8 * Suc j + k < LENGTH('a)" using assms k by linarith
  ultimately show "bit (bytes_of (push_bit 8 w OR ucast x) (Suc j)) k = bit (bytes_of w j) k"
    using k by (auto simp: bit_bytes_of bit_or_iff bit_push_bit_iff bit_ucast_iff dest: bit_imp_le_length)
qed

lemma bytes_of_be_value:
  "j < length bs \<Longrightarrow> 8 * length bs \<le> LENGTH('a::len) \<Longrightarrow>
     bytes_of (be_value bs :: 'a word) j = rev bs ! j"
proof (induction bs arbitrary: j rule: rev_induct)
  case Nil
  then show ?case by simp
next
  case (snoc x bs)
  show ?case
  proof (cases j)
    case 0
    have "8 \<le> LENGTH('a)" using snoc.prems(2) by simp
    then show ?thesis unfolding be_value_snoc 0 by (simp add: bytes_of_snoc_0)
  next
    case (Suc i)
    then have i: "i < length bs" "8 * length bs \<le> LENGTH('a)" using snoc.prems by simp_all
    then have ih: "bytes_of (be_value bs :: 'a word) i = rev bs ! i" by (rule snoc.IH)
    have "8 * Suc i + 8 \<le> LENGTH('a)" using i(1) snoc.prems(2) by simp
    then show ?thesis unfolding be_value_snoc Suc using ih by (simp add: bytes_of_snoc_Suc)
  qed
qed

subsection \<open>The accessors\<close>

lemma bounds_check_iff:
  assumes "n < 2 ^ 64"
  shows "CBUFFER_BOUNDS_CHECK (Some b) off (of_nat n)
     = (if unat off + n \<le> unat (byte_length b) then 0 else - 1)"
proof -
  have n: "unat (of_nat n :: size_t) = n" using assms by (simp add: unat_of_nat)
  show ?thesis
  proof (cases "off \<le> byte_length b")
    case True
    then have "unat (byte_length b - off) = unat (byte_length b) - unat off" by (rule unat_sub)
    moreover have "unat off \<le> unat (byte_length b)" using True by (simp add: word_le_nat_alt)
    ultimately show ?thesis using True n
      by (auto simp: CBUFFER_BOUNDS_CHECK_def word_le_nat_alt)
  next
    case False
    then have "\<not> unat off \<le> unat (byte_length b)" by (simp add: word_le_nat_alt)
    then have "\<not> unat off + n \<le> unat (byte_length b)" by simp
    with False show ?thesis by (simp add: CBUFFER_BOUNDS_CHECK_def)
  qed
qed

lemma bytes_at_nth: "j < n \<Longrightarrow> bytes_at b off n ! j = data b (unat off + j)"
  by (simp add: bytes_at_def)

lemma length_bytes_at: "length (bytes_at b off n) = n"
  by (simp add: bytes_at_def)

lemma word_of_le_value:
  assumes "8 * n = LENGTH('a::len)"
  shows "(word_of (ptr_add (data b) (unat off)) n :: 'a word) = be_value (rev (bytes_at b off n))"
proof (rule word_eq_bytes [of n])
  show "LENGTH('a) \<le> 8 * n" using assms by simp
  fix j assume j: "j < n"
  have "bytes_of (word_of (ptr_add (data b) (unat off)) n :: 'a word) j = data b (unat off + j)"
    using bytes_of_word_of [where 'a = 'a, OF j, of "ptr_add (data b) (unat off)"] assms
    by (simp add: ptr_add_def)
  moreover have "bytes_of (be_value (rev (bytes_at b off n)) :: 'a word) j = bytes_at b off n ! j"
    using bytes_of_be_value [where 'a = 'a, of j "rev (bytes_at b off n)"] j assms by (simp add: length_bytes_at)
  ultimately show "bytes_of (word_of (ptr_add (data b) (unat off)) n :: 'a word) j
      = bytes_of (be_value (rev (bytes_at b off n)) :: 'a word) j"
    using j by (simp add: bytes_at_nth)
qed

lemma word_of_be_value:
  fixes swap :: "'a::len word \<Rightarrow> 'a word"
  assumes len: "8 * n = LENGTH('a)"
    and rev: "\<And>v j. j < n \<Longrightarrow> bytes_of (swap v) j = bytes_of v (n - 1 - j)"
  shows "swap (word_of (ptr_add (data b) (unat off)) n) = be_value (bytes_at b off n)"
proof (rule word_eq_bytes [of n])
  show "LENGTH('a) \<le> 8 * n" using len by simp
  fix j assume j: "j < n"
  then have j': "n - 1 - j < n" by simp
  have "bytes_of (swap (word_of (ptr_add (data b) (unat off)) n)) j
      = bytes_of (word_of (ptr_add (data b) (unat off)) n :: 'a word) (n - 1 - j)"
    by (rule rev [OF j])
  also have "\<dots> = data b (unat off + (n - 1 - j))"
    using bytes_of_word_of [where 'a = 'a, OF j', of "ptr_add (data b) (unat off)"] len
    by (simp add: ptr_add_def)
  also have "\<dots> = bytes_at b off n ! (n - 1 - j)" using j' by (simp add: bytes_at_nth)
  also have "\<dots> = rev (bytes_at b off n) ! j" using j by (simp add: rev_nth length_bytes_at)
  also have "\<dots> = bytes_of (be_value (bytes_at b off n) :: 'a word) j"
    using bytes_of_be_value [where 'a = 'a, of j "bytes_at b off n"] j len by (simp add: length_bytes_at)
  finally show "bytes_of (swap (word_of (ptr_add (data b) (unat off)) n)) j
      = bytes_of (be_value (bytes_at b off n) :: 'a word) j" .
qed

text \<open>
  What \<open>memcpy\<close> stores is what a later \<open>memcpy\<close> from the same place loads, and the bytes
  outside the copied range are untouched.
\<close>

lemma word_of_memcpy:
  fixes w :: "'a::len word"
  assumes len: "8 * n = LENGTH('a)"
  shows "(word_of (ptr_add (memcpy d off (bytes_of w) n) off) n :: 'a word) = w"
proof (rule word_eq_bytes [of n])
  show "LENGTH('a) \<le> 8 * n" using len by simp
next
  fix j assume j: "j < n"
  have "8 * n \<le> LENGTH('a)" using len by simp
  from bytes_of_word_of [OF j this, of "ptr_add (memcpy d off (bytes_of w) n) off"] j
  show "bytes_of (word_of (ptr_add (memcpy d off (bytes_of w) n) off) n :: 'a word) j
      = bytes_of w j"
    by (simp add: ptr_add_def memcpy_def)
qed

lemma memcpy_outside: "\<not> (off \<le> i \<and> i < off + n) \<Longrightarrow> memcpy d off src n i = d i"
  by (auto simp: memcpy_def)

lemma scalar_access:
  fixes swap :: "'a::len word \<Rightarrow> 'a word"
  assumes len: "8 * n = LENGTH('a)" and n: "n < 2 ^ 64"
    and rev: "\<And>v j. j < n \<Longrightarrow> bytes_of (swap v) j = bytes_of v (n - 1 - j)"
  shows "\<not> unat off + n \<le> unat (byte_length b) \<Longrightarrow>
      CBUFFER_BOUNDS_CHECK (Some b) off (of_nat n) = - 1
      \<and> CBUFFER_READ_VALUE n (swap_for swap e) (Some b) off = 0
      \<and> CBUFFER_WRITE_VALUE mempcy n (swap_for swap e) (Some b) off v = (0, Some b)"
    and "unat off + n \<le> unat (byte_length b) \<Longrightarrow>
      CBUFFER_BOUNDS_CHECK (Some b) off (of_nat n) = 0
      \<and> CBUFFER_READ_VALUE n (swap_for swap BigEndian) (Some b) off = be_value (bytes_at b off n)
      \<and> CBUFFER_READ_VALUE n (swap_for swap LittleEndian) (Some b) off
          = be_value (rev (bytes_at b off n))
      \<and> CBUFFER_WRITE_VALUE mempcy n (swap_for swap e) (Some b) off v
          = (0, Some (b\<lparr>data := mempcy (data b) (unat off) (bytes_of (swap_for swap e v)) n\<rparr>))"
    and "unat off + n \<le> unat (byte_length b) \<Longrightarrow>
      CBUFFER_WRITE_VALUE memcpy n (swap_for swap e) (Some b) off
           (CBUFFER_READ_VALUE n (swap_for swap e) (Some b) off) = (0, Some b)
      \<and> CBUFFER_READ_VALUE n (swap_for swap e)
           (snd (CBUFFER_WRITE_VALUE memcpy n (swap_for swap e) (Some b) off v)) off = v"
proof -
  assume "\<not> unat off + n \<le> unat (byte_length b)"
  then have "CBUFFER_BOUNDS_CHECK (Some b) off (of_nat n) = - 1"
    by (simp add: bounds_check_iff [OF n])
  then show "CBUFFER_BOUNDS_CHECK (Some b) off (of_nat n) = - 1
      \<and> CBUFFER_READ_VALUE n (swap_for swap e) (Some b) off = 0
      \<and> CBUFFER_WRITE_VALUE mempcy n (swap_for swap e) (Some b) off v = (0, Some b)"
    by (simp add: CBUFFER_READ_VALUE_def CBUFFER_WRITE_VALUE_def)
next
  assume "unat off + n \<le> unat (byte_length b)"
  then have ok: "CBUFFER_BOUNDS_CHECK (Some b) off (of_nat n) = 0"
    by (simp add: bounds_check_iff [OF n])
  let ?w = "word_of (ptr_add (data b) (unat off)) n :: 'a word"
  have rd: "CBUFFER_READ_VALUE n f (Some b) off = f ?w" for f
    using ok by (simp add: CBUFFER_READ_VALUE_def)
  have be: "CBUFFER_READ_VALUE n (swap_for swap BigEndian) (Some b) off = be_value (bytes_at b off n)"
    unfolding rd using word_of_be_value [OF len rev, of b off] by (simp add: swap_for_def)
  have le: "CBUFFER_READ_VALUE n (swap_for swap LittleEndian) (Some b) off
      = be_value (rev (bytes_at b off n))"
    unfolding rd using word_of_le_value [OF len, of b off] by (simp add: swap_for_def)
  have wr: "CBUFFER_WRITE_VALUE mempcy n (swap_for swap e) (Some b) off v
      = (0, Some (b\<lparr>data := mempcy (data b) (unat off) (bytes_of (swap_for swap e v)) n\<rparr>))"
    using ok by (simp add: CBUFFER_WRITE_VALUE_def)
  from ok be le wr show "CBUFFER_BOUNDS_CHECK (Some b) off (of_nat n) = 0
      \<and> CBUFFER_READ_VALUE n (swap_for swap BigEndian) (Some b) off = be_value (bytes_at b off n)
      \<and> CBUFFER_READ_VALUE n (swap_for swap LittleEndian) (Some b) off
          = be_value (rev (bytes_at b off n))
      \<and> CBUFFER_WRITE_VALUE mempcy n (swap_for swap e) (Some b) off v
          = (0, Some (b\<lparr>data := mempcy (data b) (unat off) (bytes_of (swap_for swap e v)) n\<rparr>))"
    by simp
next
  assume in_range: "unat off + n \<le> unat (byte_length b)"
  then have ok: "CBUFFER_BOUNDS_CHECK (Some b) off (of_nat n) = 0"
    by (simp add: bounds_check_iff [OF n])
  let ?w = "word_of (ptr_add (data b) (unat off)) n :: 'a word"
  let ?b' = "b\<lparr>data := memcpy (data b) (unat off) (bytes_of (swap_for swap e v)) n\<rparr>"
  have rd: "CBUFFER_READ_VALUE n f (Some b) off = f ?w" for f
    using ok by (simp add: CBUFFER_READ_VALUE_def)
  have inv: "swap_for swap e (swap_for swap e x) = x" for x
  proof (cases e)
    case LittleEndian
    then show ?thesis by (simp add: swap_for_def)
  next
    case BigEndian
    have "swap (swap x) = x"
      by (rule swap_involution [of n]) (use len rev in simp_all)
    with BigEndian show ?thesis by (simp add: swap_for_def)
  qed
  have restored: "memcpy (data b) (unat off) (bytes_of ?w) n = data b"
    by (rule memcpy_bytes_back) (use len in simp)
  have round: "CBUFFER_WRITE_VALUE memcpy n (swap_for swap e) (Some b) off
           (CBUFFER_READ_VALUE n (swap_for swap e) (Some b) off) = (0, Some b)"
    unfolding rd using ok by (simp add: CBUFFER_WRITE_VALUE_def inv restored)
  have wr: "snd (CBUFFER_WRITE_VALUE memcpy n (swap_for swap e) (Some b) off v) = Some ?b'"
    using ok by (simp add: CBUFFER_WRITE_VALUE_def)
  have "unat off + n \<le> unat (byte_length ?b')" using in_range by simp
  then have ok': "CBUFFER_BOUNDS_CHECK (Some ?b') off (of_nat n) = 0"
    by (simp only: bounds_check_iff [OF n] if_True)
  have "CBUFFER_READ_VALUE n (swap_for swap e) (Some ?b') off
      = swap_for swap e (word_of (ptr_add (data ?b') (unat off)) n)"
    using ok' by (simp add: CBUFFER_READ_VALUE_def)
  also have "\<dots> = swap_for swap e (swap_for swap e v)"
    by (simp add: word_of_memcpy [OF len])
  finally have stored: "CBUFFER_READ_VALUE n (swap_for swap e) (Some ?b') off = v"
    by (simp only: inv)
  from round stored show "CBUFFER_WRITE_VALUE memcpy n (swap_for swap e) (Some b) off
           (CBUFFER_READ_VALUE n (swap_for swap e) (Some b) off) = (0, Some b)
      \<and> CBUFFER_READ_VALUE n (swap_for swap e)
           (snd (CBUFFER_WRITE_VALUE memcpy n (swap_for swap e) (Some b) off v)) off = v"
    by (simp only: wr simp_thms)
qed

text \<open>
  The accessors of each width, by the position of the access: outside the used bytes
  they change nothing and give 0; inside, the read gives the value of the bytes at the
  offset and the write hands the buffer's bytes, the offset and the bytes of the value
  to \<open>mempcy\<close>.  Were \<open>mempcy\<close> the library's \<open>memcpy\<close>, a write would store its value
  (a read at the same place gives it back) and writing back what was read would leave
  the buffer as it was.
\<close>

lemma access16:
  "(\<not> unat off + 2 \<le> unat (byte_length b) \<longrightarrow>
      CBUFFER_BOUNDS_CHECK (Some b) off 2 = - 1 \<and> readUint16 (Some b) off e = 0
      \<and> writeUint16 mempcy (Some b) off v e = (0, Some b))
   \<and> (unat off + 2 \<le> unat (byte_length b) \<longrightarrow>
      CBUFFER_BOUNDS_CHECK (Some b) off 2 = 0
      \<and> readUint16 (Some b) off BigEndian = be_value (bytes_at b off 2)
      \<and> readUint16 (Some b) off LittleEndian = be_value (rev (bytes_at b off 2))
      \<and> writeUint16 mempcy (Some b) off v e
          = (0, Some (b\<lparr>data := mempcy (data b) (unat off)
                                 (bytes_of (swap_for swap_endian_16 e v)) 2\<rparr>))
      \<and> writeUint16 memcpy (Some b) off (readUint16 (Some b) off e) e = (0, Some b)
      \<and> readUint16 (snd (writeUint16 memcpy (Some b) off v e)) off e = v)"
proof -
  have len: "8 * 2 = LENGTH(16)" and n: "(2::nat) < 2 ^ 64" by simp_all
  have rev: "\<And>v j. j < 2 \<Longrightarrow> bytes_of (swap_endian_16 v) j = bytes_of v (2 - 1 - j)"
    by (rule bytes_of_swap_endian_16)
  from scalar_access(1) [OF len n rev, where off = off and b = b and e = e and v = v
      and mempcy = mempcy]
    scalar_access(2) [OF len n rev, where off = off and b = b and e = e and v = v
      and mempcy = mempcy]
    scalar_access(3) [OF len n rev, where off = off and b = b and e = e and v = v]
  show ?thesis unfolding readUint16_def writeUint16_def by simp
qed

lemma access32:
  "(\<not> unat off + 4 \<le> unat (byte_length b) \<longrightarrow>
      CBUFFER_BOUNDS_CHECK (Some b) off 4 = - 1 \<and> readUint32 (Some b) off e = 0
      \<and> writeUint32 mempcy (Some b) off v e = (0, Some b))
   \<and> (unat off + 4 \<le> unat (byte_length b) \<longrightarrow>
      CBUFFER_BOUNDS_CHECK (Some b) off 4 = 0
      \<and> readUint32 (Some b) off BigEndian = be_value (bytes_at b off 4)
      \<and> readUint32 (Some b) off LittleEndian = be_value (rev (bytes_at b off 4))
      \<and> writeUint32 mempcy (Some b) off v e
          = (0, Some (b\<lparr>data := mempcy (data b) (unat off)
                                 (bytes_of (swap_for swap_endian_32 e v)) 4\<rparr>))
      \<and> writeUint32 memcpy (Some b) off (readUint32 (Some b) off e) e = (0, Some b)
      \<and> readUint32 (snd (writeUint32 memcpy (Some b) off v e)) off e = v)"
proof -
  have len: "8 * 4 = LENGTH(32)" and n: "(4::nat) < 2 ^ 64" by simp_all
  have rev: "\<And>v j. j < 4 \<Longrightarrow> bytes_of (swap_endian_32 v) j = bytes_of v (4 - 1 - j)"
    by (rule bytes_of_swap_endian_32)
  from scalar_access(1) [OF len n rev, where off = off and b = b and e = e and v = v
      and mempcy = mempcy]
    scalar_access(2) [OF len n rev, where off = off and b = b and e = e and v = v
      and mempcy = mempcy]
    scalar_access(3) [OF len n rev, where off = off and b = b and e = e and v = v]
  show ?thesis unfolding readUint32_def writeUint32_def by simp
qed

lemma access64:
  "(\<not> unat off + 8 \<le> unat (byte_length b) \<longrightarrow>
      CBUFFER_BOUNDS_CHECK (Some b) off 8 = - 1 \<and> readUint64 (Some b) off e = 0
      \<and> writeUint64 mempcy (Some b) off v e = (0, Some b))
   \<and> (unat off + 8 \<le> unat (byte_length b) \<longrightarrow>
      CBUFFER_BOUNDS_CHECK (Some b) off 8 = 0
      \<and> readUint64 (Some b) off BigEndian = be_value (bytes_at b off 8)
      \<and> readUint64 (Some b) off LittleEndian = be_value (rev (bytes_at b off 8))
      \<and> writeUint64 mempcy (Some b) off v e
          = (0, Some (b\<lparr>data := mempcy (data b) (unat off)
                                 (bytes_of (swap_for swap_endian_64 e v)) 8\<rparr>))
      \<and> writeUint64 memcpy (Some b) off (readUint64 (Some b) off e) e = (0, Some b)
      \<and> readUint64 (snd (writeUint64 memcpy (Some b) off v e)) off e = v)"
proof -
  have len: "8 * 8 = LENGTH(64)" and n: "(8::nat) < 2 ^ 64" by simp_all
  have rev: "\<And>v j. j < 8 \<Longrightarrow> bytes_of (swap_endian_64 v) j = bytes_of v (8 - 1 - j)"
    by (rule bytes_of_swap_endian_64)
  from scalar_access(1) [OF len n rev, where off = off and b = b and e = e and v = v
      and mempcy = mempcy]
    scalar_access(2) [OF len n rev, where off = off and b = b and e = e and v = v
      and mempcy = mempcy]
    scalar_access(3) [OF len n rev, where off = off and b = b and e = e and v = v]
  show ?thesis unfolding readUint64_def writeUint64_def by simp
qed

text \<open>
  Reading, for N = 16, 32, 64 and every buffer, offset and endianness: when
  \<open>offset > length - N/8\<close> (in the integers) the bounds check fails and \<open>readUintN\<close> takes
  its failure path, which returns 0.  Otherwise the check succeeds and the value read is
  that of the N/8 bytes at \<open>offset\<close>, most significant byte first for big-endian and
  last for little-endian.
\<close>

lemma readUint_value:
  "(int (unat (byte_length b)) - 2 < int (unat off) \<longrightarrow>
      CBUFFER_BOUNDS_CHECK (Some b) off 2 = - 1 \<and> readUint16 (Some b) off e = 0)
   \<and> (int (unat off) \<le> int (unat (byte_length b)) - 2 \<longrightarrow>
      CBUFFER_BOUNDS_CHECK (Some b) off 2 = 0
      \<and> readUint16 (Some b) off BigEndian = be_value (bytes_at b off 2)
      \<and> readUint16 (Some b) off LittleEndian = be_value (rev (bytes_at b off 2)))
   \<and> (int (unat (byte_length b)) - 4 < int (unat off) \<longrightarrow>
      CBUFFER_BOUNDS_CHECK (Some b) off 4 = - 1 \<and> readUint32 (Some b) off e = 0)
   \<and> (int (unat off) \<le> int (unat (byte_length b)) - 4 \<longrightarrow>
      CBUFFER_BOUNDS_CHECK (Some b) off 4 = 0
      \<and> readUint32 (Some b) off BigEndian = be_value (bytes_at b off 4)
      \<and> readUint32 (Some b) off LittleEndian = be_value (rev (bytes_at b off 4)))
   \<and> (int (unat (byte_length b)) - 8 < int (unat off) \<longrightarrow>
      CBUFFER_BOUNDS_CHECK (Some b) off 8 = - 1 \<and> readUint64 (Some b) off e = 0)
   \<and> (int (unat off) \<le> int (unat (byte_length b)) - 8 \<longrightarrow>
      CBUFFER_BOUNDS_CHECK (Some b) off 8 = 0
      \<and> readUint64 (Some b) off BigEndian = be_value (bytes_at b off 8)
      \<and> readUint64 (Some b) off LittleEndian = be_value (rev (bytes_at b off 8)))"
proof -
  have i2: "int (unat (byte_length b)) - 2 < int (unat off) \<longleftrightarrow> \<not> unat off + 2 \<le> unat (byte_length b)"
    and i4: "int (unat (byte_length b)) - 4 < int (unat off) \<longleftrightarrow> \<not> unat off + 4 \<le> unat (byte_length b)"
    and i8: "int (unat (byte_length b)) - 8 < int (unat off) \<longleftrightarrow> \<not> unat off + 8 \<le> unat (byte_length b)"
    by linarith+
  have j2: "int (unat off) \<le> int (unat (byte_length b)) - 2 \<longleftrightarrow> unat off + 2 \<le> unat (byte_length b)"
    and j4: "int (unat off) \<le> int (unat (byte_length b)) - 4 \<longleftrightarrow> unat off + 4 \<le> unat (byte_length b)"
    and j8: "int (unat off) \<le> int (unat (byte_length b)) - 8 \<longleftrightarrow> unat off + 8 \<le> unat (byte_length b)"
    by linarith+
  show ?thesis
    unfolding i2 i4 i8 j2 j4 j8
    using access16 [of off b e] access32 [of off b e] access64 [of off b e] by blast
qed

text \<open>
  Writing, with \<open>memcpy\<close> in the place of \<open>mempcy\<close>: a write inside the used bytes stores
  its value, so that the read at the same offset and endianness returns it, it changes
  no field but \<open>data\<close> and no byte outside the N/8 bytes at the offset, and writing back
  the value just read leaves the buffer as it was.
\<close>

lemma writeUint_memcpy:
  "(int (unat off) \<le> int (unat (byte_length b)) - 2 \<longrightarrow>
      readUint16 (snd (writeUint16 memcpy (Some b) off v16 e)) off e = v16
      \<and> writeUint16 memcpy (Some b) off v16 e
          = (0, Some (b\<lparr>data := memcpy (data b) (unat off)
                                 (bytes_of (swap_for swap_endian_16 e v16)) 2\<rparr>))
      \<and> (\<forall>i. \<not> (unat off \<le> i \<and> i < unat off + 2) \<longrightarrow>
            memcpy (data b) (unat off) (bytes_of (swap_for swap_endian_16 e v16)) 2 i
              = data b i)
      \<and> writeUint16 memcpy (Some b) off (readUint16 (Some b) off e) e = (0, Some b))
   \<and> (int (unat off) \<le> int (unat (byte_length b)) - 4 \<longrightarrow>
      readUint32 (snd (writeUint32 memcpy (Some b) off v32 e)) off e = v32
      \<and> writeUint32 memcpy (Some b) off v32 e
          = (0, Some (b\<lparr>data := memcpy (data b) (unat off)
                                 (bytes_of (swap_for swap_endian_32 e v32)) 4\<rparr>))
      \<and> (\<forall>i. \<not> (unat off \<le> i \<and> i < unat off + 4) \<longrightarrow>
            memcpy (data b) (unat off) (bytes_of (swap_for swap_endian_32 e v32)) 4 i
              = data b i)
      \<and> writeUint32 memcpy (Some b) off (readUint32 (Some b) off e) e = (0, Some b))
   \<and> (int (unat off) \<le> int (unat (byte_length b)) - 8 \<longrightarrow>
      readUint64 (snd (writeUint64 memcpy (Some b) off v64 e)) off e = v64
      \<and> writeUint64 memcpy (Some b) off v64 e
          = (0, Some (b\<lparr>data := memcpy (data b) (unat off)
                                 (bytes_of (swap_for swap_endian_64 e v64)) 8\<rparr>))
      \<and> (\<forall>i. \<not> (unat off \<le> i \<and> i < unat off + 8) \<longrightarrow>
            memcpy (data b) (unat off) (bytes_of (swap_for swap_endian_64 e v64)) 8 i
              = data b i)
      \<and> writeUint64 memcpy (Some b) off (readUint64 (Some b) off e) e = (0, Some b))"
proof -
  have j2: "int (unat off) \<le> int (unat (byte_length b)) - 2 \<longleftrightarrow> unat off + 2 \<le> unat (byte_length b)"
    and j4: "int (unat off) \<le> int (unat (byte_length b)) - 4 \<longleftrightarrow> unat off + 4 \<le> unat (byte_length b)"
    and j8: "int (unat off) \<le> int (unat (byte_length b)) - 8 \<longleftrightarrow> unat off + 8 \<le> unat (byte_length b)"
    by linarith+
  have out: "\<forall>i. \<not> (unat off \<le> i \<and> i < unat off + n) \<longrightarrow>
      memcpy (data b) (unat off) src n i = data b i" for src n
    by (simp add: memcpy_outside)
  have a: "unat off + 2 \<le> unat (byte_length b) \<longrightarrow>
      readUint16 (snd (writeUint16 memcpy (Some b) off v16 e)) off e = v16
      \<and> writeUint16 memcpy (Some b) off v16 e
          = (0, Some (b\<lparr>data := memcpy (data b) (unat off)
                                 (bytes_of (swap_for swap_endian_16 e v16)) 2\<rparr>))
      \<and> (\<forall>i. \<not> (unat off \<le> i \<and> i < unat off + 2) \<longrightarrow>
            memcpy (data b) (unat off) (bytes_of (swap_for swap_endian_16 e v16)) 2 i
              = data b i)
      \<and> writeUint16 memcpy (Some b) off (readUint16 (Some b) off e) e = (0, Some b)"
    using access16 [of off b e memcpy v16]
      out [of 2 "bytes_of (swap_for swap_endian_16 e v16)"] by blast
  have b: "unat off + 4 \<le> unat (byte_length b) \<longrightarrow>
      readUint32 (snd (writeUint32 memcpy (Some b) off v32 e)) off e = v32
      \<and> writeUint32 memcpy (Some b) off v32 e
          = (0, Some (b\<lparr>data := memcpy (data b) (unat off)
                                 (bytes_of (swap_for swap_endian_32 e v32)) 4\<rparr>))
      \<and> (\<forall>i. \<not> (unat off \<le> i \<and> i < unat off + 4) \<longrightarrow>
            memcpy (data b) (unat off) (bytes_of (swap_for swap_endian_32 e v32)) 4 i
              = data b i)
      \<and> writeUint32 memcpy (Some b) off (readUint32 (Some b) off e) e = (0, Some b)"
    using access32 [of off b e memcpy v32]
      out [of 4 "bytes_of (swap_for swap_endian_32 e v32)"] by blast
  have c: "unat off + 8 \<le> unat (byte_length b) \<longrightarrow>
      readUint64 (snd (writeUint64 memcpy (Some b) off v64 e)) off e = v64
      \<and> writeUint64 memcpy (Some b) off v64 e
          = (0, Some (b\<lparr>data := memcpy (data b) (unat off)
                                 (bytes_of (swap_for swap_endian_64 e v64)) 8\<rparr>))
      \<and> (\<forall>i. \<not> (unat off \<le> i \<and> i < unat off + 8) \<longrightarrow>
            memcpy (data b) (unat off) (bytes_of (swap_for swap_endian_64 e v64)) 8 i
              = data b i)
      \<and> writeUint64 memcpy (Some b) off (readUint64 (Some b) off e) e = (0, Some b)"
    using access64 [of off b e memcpy v64]
      out [of 8 "bytes_of (swap_for swap_endian_64 e v64)"] by blast
  show ?thesis
    unfolding j2 j4 j8 by (rule conjI [OF a conjI [OF b c]])
qed

lemma bytes_at_buf8:
  "bytes_at buf8 0 2 = [0x01, 0x23]"
  "bytes_at buf8 4 4 = [0x89, 0xAB, 0xCD, 0xEF]"
  "bytes_at buf8 0 8 = [0x01, 0x23, 0x45, 0x67, 0x89, 0xAB, 0xCD, 0xEF]"
  by (simp_all add: bytes_at_def buf8_def memory_of_def upt_rec)

text \<open>The reads of the bytes \<open>01 23 45 67 89 AB CD EF\<close>, and one past their end.\<close>

lemma readUint_buf8:
  "readUint16 (Some buf8) 0 BigEndian = 0x0123
   \<and> readUint16 (Some buf8) 0 LittleEndian = 0x2301
   \<and> readUint32 (Some buf8) 4 BigEndian = 0x89ABCDEF
   \<and> readUint32 (Some buf8) 4 LittleEndian = 0xEFCDAB89
   \<and> readUint64 (Some buf8) 0 BigEndian = 0x0123456789ABCDEF
   \<and> readUint64 (Some buf8) 0 LittleEndian = 0xEFCDAB8967452301
   \<and> readUint64 (Some buf8) 1 BigEndian = 0"
proof -
  have len: "unat (byte_length buf8) = 8" by (simp add: buf8_def)
  have h: "int (unat (0 :: size_t)) \<le> int (unat (byte_length buf8)) - 2"
    "int (unat (4 :: size_t)) \<le> int (unat (byte_length buf8)) - 4"
    "int (unat (0 :: size_t)) \<le> int (unat (byte_length buf8)) - 8"
    "int (unat (byte_length buf8)) - 8 < int (unat (1 :: size_t))"
    unfolding len by simp_all
  from readUint_value [of buf8 0] h(1,3)
  have a: "readUint16 (Some buf8) 0 BigEndian = be_value (bytes_at buf8 0 2)"
    "readUint16 (Some buf8) 0 LittleEndian = be_value (rev (bytes_at buf8 0 2))"
    "readUint64 (Some buf8) 0 BigEndian = be_value (bytes_at buf8 0 8)"
    "readUint64 (Some buf8) 0 LittleEndian = be_value (rev (bytes_at buf8 0 8))"
    by blast+
  from readUint_value [of buf8 4 BigEndian] h(2)
  have b: "readUint32 (Some buf8) 4 BigEndian = be_value (bytes_at buf8 4 4)"
    "readUint32 (Some buf8) 4 LittleEndian = be_value (rev (bytes_at buf8 4 4))"
    by blast+
  from readUint_value [of buf8 1 BigEndian] h(4)
  have c: "readUint64 (Some buf8) 1 BigEndian = 0" by blast
  have v: "(be_value [0x01, 0x23] :: 16 word) = 0x0123"
    "(be_value (rev [0x01, 0x23]) :: 16 word) = 0x2301"
    "(be_value [0x89, 0xAB, 0xCD, 0xEF] :: 32 word) = 0x89ABCDEF"
    "(be_value (rev [0x89, 0xAB, 0xCD, 0xEF]) :: 32 word) = 0xEFCDAB89"
    "(be_value [0x01, 0x23, 0x45, 0x67, 0x89, 0xAB, 0xCD, 0xEF] :: 64 word) = 0x0123456789ABCDEF"
    "(be_value (rev [0x01, 0x23, 0x45, 0x67, 0x89, 0xAB, 0xCD, 0xEF]) :: 64 word)
       = 0xEFCDAB8967452301"
    by (simp_all add: be_value_def)
  from a b c show ?thesis by (simp only: bytes_at_buf8 v simp_thms)
qed

text \<open>
  C6.  The reading half holds (\<open>readUint_value\<close>): outside the used bytes the read takes
  its failure path, inside it returns the value of the N/8 bytes at the offset in the
  requested order.  The writing half does not hold of the code as it is written: the
  bytes that \<open>writeUintN\<close> leaves in the buffer are those that \<open>mempcy\<close> leaves there, and
  the program defines no such function, so nothing in it restores, or stores, anything.
  On the bytes \<open>01 23 45 67 89 AB CD EF\<close> the big-endian 16-bit read at offset 0 gives
  \<open>0x0123\<close>; writing it back swaps it to \<open>0x2301\<close> and passes the block, offset 0, the
  two bytes of that and the size 2 to \<open>mempcy\<close>, whatever it is; the bytes are back as
  they were if \<open>mempcy\<close> copies as \<open>memcpy\<close> does, and are not for a \<open>mempcy\<close> that does
  something else, such as clearing the block.
\<close>

theorem writeUint_calls_mempcy:
  "CBUFFER_BOUNDS_CHECK (Some buf8) 0 2 = 0
   \<and> readUint16 (Some buf8) 0 BigEndian = 0x0123
   \<and> (\<forall>mempcy. writeUint16 mempcy (Some buf8) 0 (readUint16 (Some buf8) 0 BigEndian) BigEndian
         = (0, Some (buf8\<lparr>data := mempcy (data buf8) 0 (bytes_of (0x2301 :: 16 word)) 2\<rparr>)))
   \<and> writeUint16 memcpy (Some buf8) 0 (readUint16 (Some buf8) 0 BigEndian) BigEndian
         = (0, Some buf8)
   \<and> writeUint16 (\<lambda>dst off src n. zero_memory) (Some buf8) 0
         (readUint16 (Some buf8) 0 BigEndian) BigEndian
         \<noteq> (0, Some buf8)"
proof -
  have ok: "CBUFFER_BOUNDS_CHECK (Some buf8) 0 2 = 0"
    by (simp add: CBUFFER_BOUNDS_CHECK_def buf8_def word_le_nat_alt)
  have rd: "readUint16 (Some buf8) 0 BigEndian = 0x0123"
    using readUint_buf8 by (elim conjE)
  have sw: "swap_for swap_endian_16 BigEndian (0x0123 :: 16 word) = 0x2301"
    by (simp add: swap_for_def swap_endian_16_def)
  have wr: "writeUint16 mempcy (Some buf8) 0 0x0123 BigEndian
      = (0, Some (buf8\<lparr>data := mempcy (data buf8) 0 (bytes_of (0x2301 :: 16 word)) 2\<rparr>))"
    for mempcy
    using ok by (simp add: writeUint16_def CBUFFER_WRITE_VALUE_def sw)
  have "unat (0 :: size_t) + 2 \<le> unat (byte_length buf8)" by (simp add: buf8_def)
  with access16 [of 0 buf8 BigEndian memcpy 0]
  have restored: "writeUint16 memcpy (Some buf8) 0 (readUint16 (Some buf8) 0 BigEndian) BigEndian
      = (0, Some buf8)"
    by blast
  have "zero_memory 1 \<noteq> data buf8 1"
    by (simp add: buf8_def memory_of_def zero_memory_def)
  then have "data (buf8\<lparr>data := zero_memory\<rparr>) \<noteq> data buf8" by auto
  then have "buf8\<lparr>data := zero_memory\<rparr> \<noteq> buf8" by metis
  then have cleared: "writeUint16 (\<lambda>dst off src n. zero_memory) (Some buf8) 0 0x0123 BigEndian
      \<noteq> (0, Some buf8)"
    unfolding wr by simp
  from ok rd wr restored cleared show ?thesis by (simp only: rd simp_thms)
qed

text \<open>
  C1, as amended.  The bounds check fails exactly when the buffer is absent, the offset
  is beyond the length, or fewer than \<open>size\<close> bytes follow the offset.  When it fails
  \<open>readUintN\<close> returns the value 0 and \<open>writeUintN\<close> returns 0 and leaves the buffer as it
  is; \<open>writeUintN\<close> returns 0 when it succeeds, too.  None of this depends on what
  \<open>mempcy\<close> does: the failure path does not reach it and the result code ignores it.
\<close>

theorem scalar_bounds_failure:
  "(CBUFFER_BOUNDS_CHECK buffer off sz \<noteq> 0)
      = (buffer = None \<or> (\<exists>b. buffer = Some b \<and> (byte_length b < off \<or> byte_length b - off < sz)))
   \<and> (CBUFFER_BOUNDS_CHECK buffer off 2 \<noteq> 0 \<longrightarrow>
        readUint16 buffer off e = 0 \<and> writeUint16 mempcy buffer off v16 e = (0, buffer))
   \<and> (CBUFFER_BOUNDS_CHECK buffer off 4 \<noteq> 0 \<longrightarrow>
        readUint32 buffer off e = 0 \<and> writeUint32 mempcy buffer off v32 e = (0, buffer))
   \<and> (CBUFFER_BOUNDS_CHECK buffer off 8 \<noteq> 0 \<longrightarrow>
        readUint64 buffer off e = 0 \<and> writeUint64 mempcy buffer off v64 e = (0, buffer))
   \<and> fst (writeUint16 mempcy buffer off v16 e) = 0
   \<and> fst (writeUint32 mempcy buffer off v32 e) = 0
   \<and> fst (writeUint64 mempcy buffer off v64 e) = 0"
proof -
  have cond: "(CBUFFER_BOUNDS_CHECK buffer off sz \<noteq> 0)
      = (buffer = None \<or> (\<exists>b. buffer = Some b \<and> (byte_length b < off \<or> byte_length b - off < sz)))"
    by (cases buffer) (auto simp: CBUFFER_BOUNDS_CHECK_def)
  have rd: "CBUFFER_BOUNDS_CHECK buffer off (of_nat n) \<noteq> 0 \<Longrightarrow>
      CBUFFER_READ_VALUE n f buffer off = 0" for n and f :: "'b::len word \<Rightarrow> 'b word"
    by (simp add: CBUFFER_READ_VALUE_def)
  have wr: "CBUFFER_BOUNDS_CHECK buffer off (of_nat n) \<noteq> 0 \<Longrightarrow>
      CBUFFER_WRITE_VALUE mempcy n f buffer off v = (0, buffer)"
    for n and f :: "'b::len word \<Rightarrow> 'b word" and v
    by (simp add: CBUFFER_WRITE_VALUE_def)
  have zero: "fst (CBUFFER_WRITE_VALUE mempcy n f buffer off v) = 0"
    for n and f :: "'b::len word \<Rightarrow> 'b word" and v
    by (simp add: CBUFFER_WRITE_VALUE_def Let_def split: option.splits)
  show ?thesis
    using cond rd [of 2 "swap_for swap_endian_16 e"] wr [of 2 "swap_for swap_endian_16 e" v16]
      rd [of 4 "swap_for swap_endian_32 e"] wr [of 4 "swap_for swap_endian_32 e" v32]
      rd [of 8 "swap_for swap_endian_64 e"] wr [of 8 "swap_for swap_endian_64 e" v64]
      zero [of 2 "swap_for swap_endian_16 e" v16] zero [of 4 "swap_for swap_endian_32 e" v32]
      zero [of 8 "swap_for swap_endian_64 e" v64]
    unfolding readUint16_def readUint32_def readUint64_def writeUint16_def writeUint32_def
      writeUint64_def
    by simp
qed

lemma word_of_zero: "(word_of zero_memory n :: 'a::len word) = 0"
  by (induction n) (simp_all add: zero_memory_def)

text \<open>
  A failed access cannot be told from a successful one by its result: on two zero bytes
  the read at offset 1 fails and the read at offset 0 succeeds, both with the value 0,
  and the failed and the successful write both return 0, whatever \<open>mempcy\<close> is.
\<close>

theorem scalar_failure_not_distinct:
  "CBUFFER_BOUNDS_CHECK (Some buf2) 1 2 = - 1
   \<and> CBUFFER_BOUNDS_CHECK (Some buf2) 0 2 = 0
   \<and> readUint16 (Some buf2) 1 LittleEndian = readUint16 (Some buf2) 0 LittleEndian
   \<and> (\<forall>mempcy. writeUint16 mempcy (Some buf2) 1 7 LittleEndian = (0, Some buf2))
   \<and> (\<forall>mempcy. fst (writeUint16 mempcy (Some buf2) 0 7 LittleEndian) = 0)"
proof -
  have "ptr_add zero_memory k = zero_memory" for k by (simp add: ptr_add_def zero_memory_def)
  then show ?thesis
    by (simp add: CBUFFER_BOUNDS_CHECK_def readUint16_def writeUint16_def CBUFFER_READ_VALUE_def
        CBUFFER_WRITE_VALUE_def buf2_def swap_for_def word_of_zero word_le_nat_alt)
qed

theorem scalar_bounds_failure_witness:
  "CBUFFER_BOUNDS_CHECK (Some buf2) 1 2 = - 1
   \<and> readUint16 (Some buf2) 1 BigEndian = 0
   \<and> writeUint16 memcpy (Some buf2) 1 0x1234 BigEndian = (0, Some buf2)"
proof -
  have c: "CBUFFER_BOUNDS_CHECK (Some buf2) 1 2 = - 1"
    by (simp add: CBUFFER_BOUNDS_CHECK_def buf2_def word_le_nat_alt)
  then have "CBUFFER_BOUNDS_CHECK (Some buf2) 1 2 \<noteq> 0" by simp
  with scalar_bounds_failure [of "Some buf2" 1 2 BigEndian memcpy "0x1234"] c
  show ?thesis by blast
qed

section \<open>Cipher mode lookup\<close>

text \<open>
  C8, as amended.  \<open>aead_aes\<close> finds a descriptor exactly for the sub-modes \<open>gcm\<close>,
  \<open>GCM\<close>, \<open>ccm\<close> and \<open>CCM\<close>; the descriptor for \<open>gcm\<close> has IV length 12, tag length 16
  and the key sizes 16, 24 and 32; \<open>xts\<close> is not found.
\<close>

theorem aead_aes_lookup:
  "(aead_aes (Some m) \<noteq> None) = (m \<in> {''gcm'', ''GCM'', ''ccm'', ''CCM''})
   \<and> aead_aes (Some ''gcm'') = Some AEAD_AES_GCM_MODE
   \<and> aead_aes (Some ''GCM'') = Some AEAD_AES_GCM_MODE
   \<and> aead_aes (Some ''ccm'') = Some AEAD_AES_CCM_MODE
   \<and> aead_aes (Some ''CCM'') = Some AEAD_AES_CCM_MODE
   \<and> iv_length AEAD_AES_GCM_MODE = 12
   \<and> tag_length AEAD_AES_GCM_MODE = 16
   \<and> set (allowed_key_sizes AEAD_AES_GCM_MODE) = {16, 24, 32}
   \<and> allowed_key_sizes_count AEAD_AES_GCM_MODE = 3
   \<and> aead_aes (Some ''xts'') = None
   \<and> aead_aes None = None"
  by (simp add: aead_aes_def AEAD_AES_GCM_MODE_def AES_KEY_SIZES_def AES_KEY_SIZES_COUNT_def)

text \<open>The mixed-case spellings \<open>Gcm\<close> and \<open>cCm\<close> are not found.\<close>

theorem aead_aes_mixed_case_not_found:
  "case_variant ''Gcm'' ''gcm'' \<and> aead_aes (Some ''Gcm'') = None
   \<and> case_variant ''cCm'' ''ccm'' \<and> aead_aes (Some ''cCm'') = None"
  by code_simp

end
